theory Spec2Isabelle
  imports Main "HOL-Library.AList" "HOL-Library.Product_Lexorder" "HOL-Library.Multiset"
begin

section \<open>The Hearts rules engine of \<open>app/game.py\<close>\<close>

text \<open>
  The engine is embedded as it is written.  A card and a seat identifier are Python
  strings; a dictionary is an association list in insertion order whose keys are
  updated in place (\<open>AList.update\<close>), because the source iterates over its
  dictionaries; every place where Python can raise is a branch returning \<open>Inl\<close>
  with the exception's name.  A method of \<open>HeartsGame\<close> takes the \<open>GameState\<close>
  and returns the value of the call together with the state it leaves.  The state a
  raising call leaves behind is not represented: a run is a sequence of calls that
  return.
\<close>

subsection \<open>Exceptions and dictionaries\<close>

datatype error = IndexError | KeyError | ValueError | ZeroDivisionError

definition bindE :: "error + 'a \<Rightarrow> ('a \<Rightarrow> error + 'b) \<Rightarrow> error + 'b" where
  "bindE m f = (case m of Inl e \<Rightarrow> Inl e | Inr x \<Rightarrow> f x)"

text \<open>A comprehension or generator whose element expression can raise: left to right,
  stopping at the first exception.\<close>

fun mapE :: "('a \<Rightarrow> error + 'b) \<Rightarrow> 'a list \<Rightarrow> error + 'b list" where
  "mapE f [] = Inr []"
| "mapE f (x # xs) =
     (case f x of Inl e \<Rightarrow> Inl e
      | Inr y \<Rightarrow> (case mapE f xs of Inl e \<Rightarrow> Inl e | Inr ys \<Rightarrow> Inr (y # ys)))"

fun filterE :: "('a \<Rightarrow> error + bool) \<Rightarrow> 'a list \<Rightarrow> error + 'a list" where
  "filterE f [] = Inr []"
| "filterE f (x # xs) =
     (case f x of Inl e \<Rightarrow> Inl e
      | Inr b \<Rightarrow> (case filterE f xs of Inl e \<Rightarrow> Inl e
                  | Inr ys \<Rightarrow> Inr (if b then x # ys else ys)))"

text \<open>A \<open>for\<close> loop whose body updates an accumulator and can raise.\<close>

fun foldE :: "('a \<Rightarrow> 'b \<Rightarrow> error + 'b) \<Rightarrow> 'a list \<Rightarrow> 'b \<Rightarrow> error + 'b" where
  "foldE f [] acc = Inr acc"
| "foldE f (x # xs) acc = (case f x acc of Inl e \<Rightarrow> Inl e | Inr acc' \<Rightarrow> foldE f xs acc')"

text \<open>\<open>d[k]\<close> raises \<open>KeyError\<close> on a missing key; \<open>xs.index(x)\<close> raises
  \<open>ValueError\<close> on a missing element; \<open>d.get(k, default)\<close> never raises.\<close>

definition dict_get :: "('k \<times> 'v) list \<Rightarrow> 'k \<Rightarrow> error + 'v" where
  "dict_get d k = (case map_of d k of None \<Rightarrow> Inl KeyError | Some v \<Rightarrow> Inr v)"

definition dict_get_default :: "('k \<times> 'v) list \<Rightarrow> 'k \<Rightarrow> 'v \<Rightarrow> 'v" where
  "dict_get_default d k dflt = (case map_of d k of None \<Rightarrow> dflt | Some v \<Rightarrow> v)"

fun list_index :: "'a list \<Rightarrow> 'a \<Rightarrow> error + nat" where
  "list_index [] x = Inl ValueError"
| "list_index (y # ys) x =
     (if y = x then Inr 0
      else (case list_index ys x of Inl e \<Rightarrow> Inl e | Inr i \<Rightarrow> Inr (Suc i)))"

subsection \<open>Cards\<close>

text \<open>\<open>RANKS\<close> is the list of the thirteen one-character rank strings, from \<open>"2"\<close>
  to \<open>"A"\<close>.\<close>

type_synonym card = string

definition SUITS :: "string list" where
  "SUITS = [''C'', ''D'', ''S'', ''H'']"

definition RANKS :: "string list" where
  "RANKS = map (\<lambda>ch. [ch]) ''23456789TJQKA''"

definition RANK_VALUE :: "(string \<times> nat) list" where
  "RANK_VALUE = map (\<lambda>(i, rank). (rank, i)) (enumerate 0 RANKS)"

definition PASS_LEFT :: int where "PASS_LEFT = 0"
definition PASS_RIGHT :: int where "PASS_RIGHT = 1"
definition PASS_ACROSS :: int where "PASS_ACROSS = 2"
definition PASS_HOLD :: int where "PASS_HOLD = 3"

definition make_deck :: "card list" where
  "make_deck = concat (map (\<lambda>suit. map (\<lambda>rank. rank @ suit) RANKS) SUITS)"

text \<open>\<open>card[1]\<close> and \<open>card[0]\<close>: a one-character string, or \<open>IndexError\<close>.\<close>

definition card_suit :: "card \<Rightarrow> error + string" where
  "card_suit c = (if 1 < length c then Inr [c ! 1] else Inl IndexError)"

definition card_rank :: "card \<Rightarrow> error + string" where
  "card_rank c = (if 0 < length c then Inr [c ! 0] else Inl IndexError)"

definition card_points :: "card \<Rightarrow> error + int" where
  "card_points c =
     bindE (card_suit c) (\<lambda>suit.
       if suit = ''H'' then Inr 1
       else if c = ''QS'' then Inr 13
       else Inr 0)"

definition is_point_card :: "card \<Rightarrow> error + bool" where
  "is_point_card c = bindE (card_points c) (\<lambda>p. Inr (0 < p))"

text \<open>\<open>RANK_VALUE[card_rank(card)]\<close>.\<close>

definition rank_value :: "card \<Rightarrow> error + nat" where
  "rank_value c = bindE (card_rank c) (dict_get RANK_VALUE)"

subsection \<open>The trick evaluator\<close>

text \<open>The loop of \<open>trick_winner\<close> over \<open>trick[1:]\<close>, with the pair \<open>winning\<close>
  as its accumulator.\<close>

fun trick_loop :: "string \<Rightarrow> string \<times> card \<Rightarrow> (string \<times> card) list \<Rightarrow> error + string" where
  "trick_loop lead_suit winning [] = Inr (fst winning)"
| "trick_loop lead_suit winning ((pid, c) # rest) =
     (case card_suit c of Inl e \<Rightarrow> Inl e
      | Inr suit \<Rightarrow>
          if suit \<noteq> lead_suit then trick_loop lead_suit winning rest
          else (case rank_value c of Inl e \<Rightarrow> Inl e
                | Inr r \<Rightarrow> (case rank_value (snd winning) of Inl e \<Rightarrow> Inl e
                    | Inr rw \<Rightarrow>
                        trick_loop lead_suit (if rw < r then (pid, c) else winning) rest)))"

definition trick_winner :: "(string \<times> card) list \<Rightarrow> error + string" where
  "trick_winner trick =
     (case trick of [] \<Rightarrow> Inl IndexError
      | first # rest \<Rightarrow>
          bindE (card_suit (snd first)) (\<lambda>lead_suit. trick_loop lead_suit first rest))"

subsection \<open>The legal-move resolver\<close>

definition legal_moves :: "card list \<Rightarrow> (string \<times> card) list \<Rightarrow> bool \<Rightarrow> bool \<Rightarrow> error + card list" where
  "legal_moves hand trick hearts_broken is_first_trick =
     (case hand of [] \<Rightarrow> Inr []
      | hand0 # _ \<Rightarrow>
        (case trick of
           [] \<Rightarrow>
             if is_first_trick then Inr (if ''2C'' \<in> set hand then [''2C''] else [hand0])
             else if hearts_broken then Inr hand
             else bindE (filterE (\<lambda>c. bindE (card_suit c) (\<lambda>s. Inr (s \<noteq> ''H''))) hand)
                    (\<lambda>non_hearts. Inr (if non_hearts \<noteq> [] then non_hearts else hand))
         | first # _ \<Rightarrow>
             bindE (card_suit (snd first)) (\<lambda>lead_suit.
             bindE (filterE (\<lambda>c. bindE (card_suit c) (\<lambda>s. Inr (s = lead_suit))) hand) (\<lambda>suited.
               if suited \<noteq> [] then Inr suited
               else if is_first_trick then
                 bindE (filterE (\<lambda>c. bindE (is_point_card c) (\<lambda>b. Inr (\<not> b))) hand)
                   (\<lambda>non_points. Inr (if non_points \<noteq> [] then non_points else hand))
               else Inr hand))))"

subsection \<open>The game state\<close>

record PlayerState =
  id_p :: string
  name :: string
  is_bot :: bool

record GameState =
  players :: "PlayerState list"
  scores :: "(string \<times> int) list"
  hands :: "(string \<times> card list) list"
  hearts_broken :: bool
  trick :: "(string \<times> card) list"
  last_trick :: "(string \<times> card) list"
  current_turn :: "string option"
  round_index :: int
  trick_index :: int
  phase :: string
  pass_dir :: int
  pending_pass :: "(string \<times> card list) list"
  taken_points_round :: "(string \<times> int) list"
  winner_id :: "string option"

definition player_order :: "GameState \<Rightarrow> string list" where
  "player_order s = map id_p (players s)"

text \<open>The dictionary comprehension \<open>{p.id: v for p in players}\<close>.\<close>

definition dict_from_players :: "PlayerState list \<Rightarrow> 'v \<Rightarrow> (string \<times> 'v) list" where
  "dict_from_players ps v = fold (\<lambda>p d. AList.update (id_p p) v d) ps []"

subsection \<open>Dealing\<close>

text \<open>The key of \<open>hand.sort\<close> is the pair of the suit's position in \<open>SUITS\<close> and
  the rank's value; Python computes the key of every element, then sorts stably.\<close>

definition card_sort_key :: "card \<Rightarrow> error + nat \<times> nat" where
  "card_sort_key c =
     bindE (card_suit c) (\<lambda>suit.
     bindE (list_index SUITS suit) (\<lambda>si.
     bindE (rank_value c) (\<lambda>rv. Inr (si, rv))))"

definition sort_hand :: "card list \<Rightarrow> error + card list" where
  "sort_hand hand =
     bindE (mapE card_sort_key hand) (\<lambda>keys. Inr (map snd (sort_key fst (zip keys hand))))"

definition sort_hands :: "(string \<times> card list) list \<Rightarrow> error + (string \<times> card list) list" where
  "sort_hands hs = mapE (\<lambda>(pid, hand). bindE (sort_hand hand) (\<lambda>h. Inr (pid, h))) hs"

text \<open>The dealing loop \<open>hands[players[i % len(players)].id].append(card)\<close> over
  \<open>enumerate(deck)\<close>.\<close>

definition deal_card :: "PlayerState list \<Rightarrow> nat \<times> card \<Rightarrow> (string \<times> card list) list
    \<Rightarrow> error + (string \<times> card list) list" where
  "deal_card ps ic hs =
     (if length ps = 0 then Inl ZeroDivisionError
      else let pid = id_p (ps ! (fst ic mod length ps)) in
        bindE (dict_get hs pid) (\<lambda>hand. Inr (AList.update pid (hand @ [snd ic]) hs)))"

text \<open>\<open>random.shuffle(deck)\<close> is the one source of nondeterminism: the shuffled deck
  is a parameter, some permutation of \<open>make_deck\<close>.\<close>

definition deal_hands :: "PlayerState list \<Rightarrow> card list \<Rightarrow> error + (string \<times> card list) list" where
  "deal_hands ps deck =
     bindE (foldE (deal_card ps) (enumerate 0 deck) (dict_from_players ps [])) sort_hands"

fun find_two_clubs_player :: "(string \<times> card list) list \<Rightarrow> string option" where
  "find_two_clubs_player [] = None"
| "find_two_clubs_player ((pid, hand) # rest) =
     (if ''2C'' \<in> set hand then Some pid else find_two_clubs_player rest)"

subsection \<open>The pass-direction resolver\<close>

definition pass_target :: "string list \<Rightarrow> int \<Rightarrow> nat \<Rightarrow> string \<Rightarrow> string" where
  "pass_target order direction idx pid =
     (if direction = PASS_LEFT then order ! ((idx + 1) mod length order)
      else if direction = PASS_RIGHT then order ! nat ((int idx - 1) mod int (length order))
      else if direction = PASS_ACROSS then order ! ((idx + 2) mod length order)
      else pid)"

definition pass_map :: "PlayerState list \<Rightarrow> int \<Rightarrow> (string \<times> string) list" where
  "pass_map ps direction =
     (let order = map id_p ps in
      fold (\<lambda>(idx, pid) mapping. AList.update pid (pass_target order direction idx pid) mapping)
        (enumerate 0 order) [])"

subsection \<open>The state machine\<close>

definition init_game :: "PlayerState list \<Rightarrow> GameState" where
  "init_game ps =
     \<lparr>players = ps, scores = dict_from_players ps 0, hands = [], hearts_broken = False,
      trick = [], last_trick = [], current_turn = None, round_index = 0, trick_index = 0,
      phase = ''lobby'', pass_dir = PASS_LEFT, pending_pass = [], taken_points_round = [],
      winner_id = None\<rparr>"

definition start_round :: "card list \<Rightarrow> GameState \<Rightarrow> error + GameState" where
  "start_round deck s =
     bindE (deal_hands (players s) deck) (\<lambda>hs.
       let s1 = s\<lparr>hands := hs, trick := [], last_trick := [], hearts_broken := False,
                  trick_index := 0, pending_pass := [],
                  taken_points_round := dict_from_players (players s) 0,
                  pass_dir := round_index s mod 4\<rparr>
       in if pass_dir s1 = PASS_HOLD
          then Inr (s1\<lparr>phase := ''playing'', current_turn := find_two_clubs_player (hands s1)\<rparr>)
          else Inr (s1\<lparr>phase := ''passing'', current_turn := None\<rparr>))"

text \<open>The three loops of the exchange in \<open>submit_pass\<close>:
  \<open>hands[pid].remove(card)\<close> for every pending card, \<open>hands[mapping[pid]].extend(pass_cards)\<close>
  for every pending pass, and the sort of every hand.\<close>

definition remove_card :: "string \<times> card \<Rightarrow> (string \<times> card list) list
    \<Rightarrow> error + (string \<times> card list) list" where
  "remove_card pc hs =
     bindE (dict_get hs (fst pc)) (\<lambda>hand.
       if snd pc \<in> set hand then Inr (AList.update (fst pc) (remove1 (snd pc) hand) hs)
       else Inl ValueError)"

definition remove_passes :: "(string \<times> card list) list \<Rightarrow> (string \<times> card list) list
    \<Rightarrow> error + (string \<times> card list) list" where
  "remove_passes pending hs =
     foldE remove_card (concat (map (\<lambda>(pid, pass_cards). map (Pair pid) pass_cards) pending)) hs"

definition extend_pass :: "(string \<times> string) list \<Rightarrow> string \<times> card list
    \<Rightarrow> (string \<times> card list) list \<Rightarrow> error + (string \<times> card list) list" where
  "extend_pass mapping pp hs =
     bindE (dict_get mapping (fst pp)) (\<lambda>target.
     bindE (dict_get hs target) (\<lambda>hand. Inr (AList.update target (hand @ snd pp) hs)))"

definition submit_pass :: "string \<Rightarrow> card list \<Rightarrow> GameState \<Rightarrow> error + bool \<times> GameState" where
  "submit_pass player_id cards s =
     (if phase s \<noteq> ''passing'' then Inr (False, s)
      else if length cards \<noteq> 3 then Inr (False, s)
      else let hand = dict_get_default (hands s) player_id [] in
        if \<exists>c \<in> set cards. c \<notin> set hand then Inr (False, s)
        else let s1 = s\<lparr>pending_pass := AList.update player_id cards (pending_pass s)\<rparr> in
          if length (pending_pass s1) < length (players s1) then Inr (True, s1)
          else let mapping = pass_map (players s1) (pass_dir s1) in
            bindE (remove_passes (pending_pass s1) (hands s1)) (\<lambda>hs1.
            bindE (foldE (extend_pass mapping) (pending_pass s1) hs1) (\<lambda>hs2.
            bindE (sort_hands hs2) (\<lambda>hs3.
              Inr (True, s1\<lparr>hands := hs3, pending_pass := [], phase := ''playing'',
                             current_turn := find_two_clubs_player hs3\<rparr>)))))"

definition next_player :: "string \<Rightarrow> GameState \<Rightarrow> error + string" where
  "next_player player_id s =
     (let order = player_order s in
      bindE (list_index order player_id) (\<lambda>idx. Inr (order ! ((idx + 1) mod length order))))"

text \<open>\<open>max(values, default=0)\<close>, and \<open>min(scores, key=scores.get)\<close>, which returns the
  first key of the iteration whose value is minimal.\<close>

definition max_default :: "int list \<Rightarrow> int \<Rightarrow> int" where
  "max_default xs dflt = (case xs of [] \<Rightarrow> dflt | x # rest \<Rightarrow> fold max rest x)"

fun min_key_loop :: "string \<times> int \<Rightarrow> (string \<times> int) list \<Rightarrow> string" where
  "min_key_loop best [] = fst best"
| "min_key_loop best (kv # rest) = min_key_loop (if snd kv < snd best then kv else best) rest"

definition min_key :: "(string \<times> int) list \<Rightarrow> error + string" where
  "min_key d = (case d of [] \<Rightarrow> Inl ValueError | kv # rest \<Rightarrow> Inr (min_key_loop kv rest))"

text \<open>The search for the moon shooter stops at the first seat with 26 points; the test
  \<open>if moon_shooter:\<close> is Python's truth value, false for \<open>None\<close> and for the empty
  string.\<close>

fun find_moon_shooter :: "(string \<times> int) list \<Rightarrow> string option" where
  "find_moon_shooter [] = None"
| "find_moon_shooter ((pid, points) # rest) =
     (if points = 26 then Some pid else find_moon_shooter rest)"

definition add_points :: "string \<times> int \<Rightarrow> (string \<times> int) list \<Rightarrow> error + (string \<times> int) list" where
  "add_points pp sc =
     bindE (dict_get sc (fst pp)) (\<lambda>v. Inr (AList.update (fst pp) (v + snd pp) sc))"

definition finish_round :: "GameState \<Rightarrow> error + GameState" where
  "finish_round s =
     (let s1 = s\<lparr>phase := ''round_end''\<rparr>;
          moon_shooter = find_moon_shooter (taken_points_round s1)
      in bindE
           (case moon_shooter of
              Some ms \<Rightarrow>
                if ms \<noteq> [] then
                  Inr (map (\<lambda>(pid, v). if pid = ms then (pid, v) else (pid, v + 26)) (scores s1))
                else foldE add_points (taken_points_round s1) (scores s1)
            | None \<Rightarrow> foldE add_points (taken_points_round s1) (scores s1))
           (\<lambda>sc.
              let s2 = s1\<lparr>scores := sc, round_index := round_index s1 + 1\<rparr> in
              if 100 \<le> max_default (map snd (scores s2)) 0
              then bindE (min_key (scores s2)) (\<lambda>w.
                     Inr (s2\<lparr>phase := ''game_over'', winner_id := Some w\<rparr>))
              else Inr s2))"

definition play_card :: "string \<Rightarrow> card \<Rightarrow> GameState \<Rightarrow> error + bool \<times> GameState" where
  "play_card player_id c s =
     (if phase s \<noteq> ''playing'' then Inr (False, s)
      else if current_turn s \<noteq> Some player_id then Inr (False, s)
      else let hand = dict_get_default (hands s) player_id [] in
        if c \<notin> set hand then Inr (False, s)
        else
          bindE (legal_moves hand (trick s) (hearts_broken s) (trick_index s = 0)) (\<lambda>legal.
            if c \<notin> set legal then Inr (False, s)
            else
              let s1 = (if trick s = [] then s\<lparr>last_trick := []\<rparr> else s);
                  s2 = s1\<lparr>hands := AList.update player_id (remove1 c hand) (hands s1),
                          trick := trick s1 @ [(player_id, c)]\<rparr>
              in bindE (card_suit c) (\<lambda>suit.
                let s3 = (if suit = ''H'' then s2\<lparr>hearts_broken := True\<rparr> else s2) in
                if length (trick s3) < length (players s3) then
                  bindE (next_player player_id s3) (\<lambda>np.
                    Inr (True, s3\<lparr>current_turn := Some np\<rparr>))
                else
                  bindE (trick_winner (trick s3)) (\<lambda>winner.
                  bindE (mapE (\<lambda>(_, c'). card_points c') (trick s3)) (\<lambda>pts.
                  bindE (dict_get (taken_points_round s3) winner) (\<lambda>old.
                    let s4 = s3\<lparr>taken_points_round :=
                                   AList.update winner (old + sum_list pts) (taken_points_round s3),
                                 last_trick := trick s3, trick := [],
                                 current_turn := Some winner\<rparr>
                    in if \<forall>h \<in> set (map snd (hands s4)). length h = 0
                       then bindE (finish_round s4) (\<lambda>s5. Inr (True, s5))
                       else Inr (True, s4\<lparr>trick_index := trick_index s4 + 1\<rparr>)))))))"

definition start_next_round :: "card list \<Rightarrow> GameState \<Rightarrow> error + bool \<times> GameState" where
  "start_next_round deck s =
     (if phase s \<noteq> ''round_end'' then Inr (False, s)
      else bindE (start_round deck s) (\<lambda>s'. Inr (True, s')))"

definition get_legal_moves :: "string \<Rightarrow> GameState \<Rightarrow> error + card list" where
  "get_legal_moves player_id s =
     legal_moves (dict_get_default (hands s) player_id []) (trick s) (hearts_broken s)
       (trick_index s = 0)"

subsection \<open>Runs of the state machine\<close>

text \<open>The calls a room makes on a game, \<open>start_round\<close> and \<open>start_next_round\<close> with the
  deck their shuffle produces.  A run applies calls in order and stops at the first one
  that raises.\<close>

datatype call =
    StartRound "card list"
  | SubmitPass string "card list"
  | PlayCard string card
  | StartNextRound "card list"

fun apply_call :: "call \<Rightarrow> GameState \<Rightarrow> error + GameState" where
  "apply_call (StartRound deck) s = start_round deck s"
| "apply_call (SubmitPass pid cards) s = bindE (submit_pass pid cards s) (\<lambda>r. Inr (snd r))"
| "apply_call (PlayCard pid c) s = bindE (play_card pid c s) (\<lambda>r. Inr (snd r))"
| "apply_call (StartNextRound deck) s = bindE (start_next_round deck s) (\<lambda>r. Inr (snd r))"

definition run :: "call list \<Rightarrow> GameState \<Rightarrow> error + GameState" where
  "run calls s = foldE apply_call calls s"

text \<open>A shuffled deck is a permutation of \<open>make_deck\<close>.\<close>

definition shuffled :: "card list \<Rightarrow> bool" where
  "shuffled deck \<longleftrightarrow> mset deck = mset make_deck"

fun call_ok :: "call \<Rightarrow> bool" where
  "call_ok (StartRound deck) = shuffled deck"
| "call_ok (StartNextRound deck) = shuffled deck"
| "call_ok _ = True"

text \<open>The states of a four-seat game: \<open>HeartsGame(players)\<close>, a first \<open>start_round\<close>,
  then any calls that return.\<close>

inductive reachable :: "GameState \<Rightarrow> bool" where
  reach_start:
    "length ps = 4 \<Longrightarrow> shuffled deck \<Longrightarrow> start_round deck (init_game ps) = Inr s \<Longrightarrow> reachable s"
| reach_call:
    "reachable s \<Longrightarrow> call_ok c \<Longrightarrow> apply_call c s = Inr s' \<Longrightarrow> reachable s'"

subsection \<open>Reading the results\<close>

text \<open>The suit, the rank value and the sort key of a card on which the source's functions
  do not raise; a point card is a heart or the queen of spades; a card is one of the 52
  strings of \<open>make_deck\<close>.\<close>

definition suit_of :: "card \<Rightarrow> string" where
  "suit_of c = (case card_suit c of Inr s \<Rightarrow> s | Inl _ \<Rightarrow> [])"

definition rank_of :: "card \<Rightarrow> nat" where
  "rank_of c = (case rank_value c of Inr r \<Rightarrow> r | Inl _ \<Rightarrow> 0)"

definition point_card :: "card \<Rightarrow> bool" where
  "point_card c \<longleftrightarrow> suit_of c = ''H'' \<or> c = ''QS''"

definition is_card :: "card \<Rightarrow> bool" where
  "is_card c \<longleftrightarrow> c \<in> set make_deck"

text \<open>The rank and the suit of a card as the rules of the game give them, read from the
  card's two characters without going through \<open>RANK_VALUE\<close>, \<open>card_rank\<close> or
  \<open>card_suit\<close>: the ranks 2 to 10 count as their number, then jack, queen, king and ace
  as 11 to 14; the suit is the second character.  Play \<open>i\<close> of a trick is its first
  highest play when it is of the suit of play 0, no play of that suit has a higher rank, and
  every earlier play of that suit has a strictly lower rank.\<close>

definition rank_table :: "(char \<times> nat) list" where
  "rank_table =
     [(CHR ''2'', 2), (CHR ''3'', 3), (CHR ''4'', 4), (CHR ''5'', 5), (CHR ''6'', 6),
      (CHR ''7'', 7), (CHR ''8'', 8), (CHR ''9'', 9), (CHR ''T'', 10), (CHR ''J'', 11),
      (CHR ''Q'', 12), (CHR ''K'', 13), (CHR ''A'', 14)]"

definition spec_rank :: "card \<Rightarrow> nat" where
  "spec_rank c =
     (case c of [] \<Rightarrow> 0
      | r # _ \<Rightarrow> (case map_of rank_table r of Some v \<Rightarrow> v | None \<Rightarrow> 0))"

definition spec_suit :: "card \<Rightarrow> string" where
  "spec_suit c = (case c of [r, s] \<Rightarrow> [s] | _ \<Rightarrow> [])"

definition first_highest :: "(string \<times> card) list \<Rightarrow> nat \<Rightarrow> bool" where
  "first_highest tr i \<longleftrightarrow>
     i < length tr \<and> spec_suit (snd (tr ! i)) = spec_suit (snd (tr ! 0)) \<and>
     (\<forall>j < length tr. spec_suit (snd (tr ! j)) = spec_suit (snd (tr ! 0)) \<longrightarrow>
        spec_rank (snd (tr ! j)) \<le> spec_rank (snd (tr ! i)) \<and>
        (j < i \<longrightarrow> spec_rank (snd (tr ! j)) < spec_rank (snd (tr ! i))))"

subsection \<open>A round played to its end\<close>

text \<open>Four seats, the unshuffled deck as the outcome of the shuffle (the identity is a
  permutation), the left pass of each seat's first three cards, and thirteen tricks in
  which every seat plays its first legal card.  \<open>demo_state n\<close> is the state after the
  first \<open>n\<close> calls.\<close>

definition four_players :: "PlayerState list" where
  "four_players =
     [\<lparr>id_p = ''n'', name = ''North'', is_bot = False\<rparr>,
      \<lparr>id_p = ''e'', name = ''East'', is_bot = False\<rparr>,
      \<lparr>id_p = ''s'', name = ''South'', is_bot = True\<rparr>,
      \<lparr>id_p = ''w'', name = ''West'', is_bot = True\<rparr>]"

definition demo_round :: "call list" where
  "demo_round =
     [StartRound make_deck,
      SubmitPass ''n'' [''2C'', ''6C'', ''TC''], SubmitPass ''e'' [''3C'', ''7C'', ''JC''],
      SubmitPass ''s'' [''4C'', ''8C'', ''QC''], SubmitPass ''w'' [''5C'', ''9C'', ''KC''],
      PlayCard ''e'' ''2C'', PlayCard ''s'' ''3C'', PlayCard ''w'' ''4C'', PlayCard ''n'' ''5C'',
      PlayCard ''n'' ''9C'', PlayCard ''e'' ''6C'', PlayCard ''s'' ''7C'', PlayCard ''w'' ''8C'',
      PlayCard ''n'' ''KC'', PlayCard ''e'' ''TC'', PlayCard ''s'' ''JC'', PlayCard ''w'' ''QC'',
      PlayCard ''n'' ''AC'', PlayCard ''e'' ''2D'', PlayCard ''s'' ''3D'', PlayCard ''w'' ''4D'',
      PlayCard ''n'' ''5D'', PlayCard ''e'' ''6D'', PlayCard ''s'' ''7D'', PlayCard ''w'' ''8D'',
      PlayCard ''w'' ''QD'', PlayCard ''n'' ''9D'', PlayCard ''e'' ''TD'', PlayCard ''s'' ''JD'',
      PlayCard ''w'' ''3S'', PlayCard ''n'' ''4S'', PlayCard ''e'' ''5S'', PlayCard ''s'' ''2S'',
      PlayCard ''e'' ''AD'', PlayCard ''s'' ''6S'', PlayCard ''w'' ''7S'', PlayCard ''n'' ''KD'',
      PlayCard ''e'' ''9S'', PlayCard ''s'' ''TS'', PlayCard ''w'' ''JS'', PlayCard ''n'' ''8S'',
      PlayCard ''w'' ''2H'', PlayCard ''n'' ''3H'', PlayCard ''e'' ''4H'', PlayCard ''s'' ''5H'',
      PlayCard ''s'' ''AS'', PlayCard ''w'' ''6H'', PlayCard ''n'' ''QS'', PlayCard ''e'' ''KS'',
      PlayCard ''s'' ''9H'', PlayCard ''w'' ''TH'', PlayCard ''n'' ''7H'', PlayCard ''e'' ''8H'',
      PlayCard ''w'' ''AH'', PlayCard ''n'' ''JH'', PlayCard ''e'' ''QH'', PlayCard ''s'' ''KH'']"

definition demo_state :: "nat \<Rightarrow> GameState" where
  "demo_state n =
     (case run (take n demo_round) (init_game four_players) of
        Inr s \<Rightarrow> s | Inl _ \<Rightarrow> init_game four_players)"

text \<open>The state after the deal, and the state after the last card of the round.\<close>

definition demo_start :: GameState where
  "demo_start =
     \<lparr>players = four_players,
      scores = [(''n'', 0), (''e'', 0), (''s'', 0), (''w'', 0)],
      hands =
        [(''n'', [''2C'', ''6C'', ''TC'', ''AC'', ''5D'', ''9D'', ''KD'', ''4S'', ''8S'', ''QS'',
                  ''3H'', ''7H'', ''JH'']),
         (''e'', [''3C'', ''7C'', ''JC'', ''2D'', ''6D'', ''TD'', ''AD'', ''5S'', ''9S'', ''KS'',
                  ''4H'', ''8H'', ''QH'']),
         (''s'', [''4C'', ''8C'', ''QC'', ''3D'', ''7D'', ''JD'', ''2S'', ''6S'', ''TS'', ''AS'',
                  ''5H'', ''9H'', ''KH'']),
         (''w'', [''5C'', ''9C'', ''KC'', ''4D'', ''8D'', ''QD'', ''3S'', ''7S'', ''JS'', ''2H'',
                  ''6H'', ''TH'', ''AH''])],
      hearts_broken = False, trick = [], last_trick = [], current_turn = None,
      round_index = 0, trick_index = 0, phase = ''passing'', pass_dir = 0,
      pending_pass = [],
      taken_points_round = [(''n'', 0), (''e'', 0), (''s'', 0), (''w'', 0)],
      winner_id = None\<rparr>"

definition demo_end :: GameState where
  "demo_end =
     \<lparr>players = four_players,
      scores = [(''n'', 0), (''e'', 0), (''s'', 18), (''w'', 8)],
      hands = [(''n'', []), (''e'', []), (''s'', []), (''w'', [])],
      hearts_broken = True, trick = [],
      last_trick = [(''w'', ''AH''), (''n'', ''JH''), (''e'', ''QH''), (''s'', ''KH'')],
      current_turn = Some ''w'', round_index = 1, trick_index = 12,
      phase = ''round_end'', pass_dir = 0, pending_pass = [],
      taken_points_round = [(''n'', 0), (''e'', 0), (''s'', 18), (''w'', 8)],
      winner_id = None\<rparr>"

text \<open>The state after the deal of that round in which the first seat has passed the two
  of clubs three times and the next two seats have passed three of their cards.\<close>

definition three_passes :: GameState where
  "three_passes =
     demo_start\<lparr>pending_pass :=
       [(''n'', [''2C'', ''2C'', ''2C'']), (''e'', [''3C'', ''7C'', ''JC'']),
        (''s'', [''4C'', ''8C'', ''QC''])]\<rparr>"

subsection \<open>A game played to its end\<close>

text \<open>Four rounds of the same four seats.  Each deck deals the hands so that, after the
  exchange of the round (left, right, across, none), one seat holds the thirteen clubs and
  each other seat one whole suit; that seat leads its clubs from the two upwards and takes
  every trick, so it takes the 26 points: the third seat in the first two rounds, the
  second seat in the last two.  \<open>game_end\<close> is the state after the last card.\<close>

definition deck_one :: "card list" where
  "deck_one =
     [''5S'', ''5H'', ''5C'', ''5D'', ''6S'', ''6H'', ''6C'', ''6D'', ''7S'', ''7H'', ''7C'',
      ''7D'', ''8S'', ''8H'', ''8C'', ''8D'', ''9S'', ''9H'', ''9C'', ''9D'', ''TS'', ''TH'',
      ''TC'', ''TD'', ''JS'', ''JH'', ''JC'', ''JD'', ''QS'', ''QH'', ''QC'', ''QD'', ''KS'',
      ''KH'', ''KC'', ''KD'', ''AS'', ''AH'', ''AC'', ''AD'', ''2H'', ''2C'', ''2D'', ''2S'',
      ''3H'', ''3C'', ''3D'', ''3S'', ''4H'', ''4C'', ''4D'', ''4S'']"

definition deck_two :: "card list" where
  "deck_two =
     [''5S'', ''5H'', ''5C'', ''5D'', ''6S'', ''6H'', ''6C'', ''6D'', ''7S'', ''7H'', ''7C'',
      ''7D'', ''8S'', ''8H'', ''8C'', ''8D'', ''9S'', ''9H'', ''9C'', ''9D'', ''TS'', ''TH'',
      ''TC'', ''TD'', ''JS'', ''JH'', ''JC'', ''JD'', ''QS'', ''QH'', ''QC'', ''QD'', ''KS'',
      ''KH'', ''KC'', ''KD'', ''AS'', ''AH'', ''AC'', ''AD'', ''2D'', ''2S'', ''2H'', ''2C'',
      ''3D'', ''3S'', ''3H'', ''3C'', ''4D'', ''4S'', ''4H'', ''4C'']"

definition deck_three :: "card list" where
  "deck_three =
     [''5H'', ''5C'', ''5D'', ''5S'', ''6H'', ''6C'', ''6D'', ''6S'', ''7H'', ''7C'', ''7D'',
      ''7S'', ''8H'', ''8C'', ''8D'', ''8S'', ''9H'', ''9C'', ''9D'', ''9S'', ''TH'', ''TC'',
      ''TD'', ''TS'', ''JH'', ''JC'', ''JD'', ''JS'', ''QH'', ''QC'', ''QD'', ''QS'', ''KH'',
      ''KC'', ''KD'', ''KS'', ''AH'', ''AC'', ''AD'', ''AS'', ''2D'', ''2S'', ''2H'', ''2C'',
      ''3D'', ''3S'', ''3H'', ''3C'', ''4D'', ''4S'', ''4H'', ''4C'']"

definition deck_four :: "card list" where
  "deck_four =
     [''2H'', ''2C'', ''2D'', ''2S'', ''3H'', ''3C'', ''3D'', ''3S'', ''4H'', ''4C'', ''4D'',
      ''4S'', ''5H'', ''5C'', ''5D'', ''5S'', ''6H'', ''6C'', ''6D'', ''6S'', ''7H'', ''7C'',
      ''7D'', ''7S'', ''8H'', ''8C'', ''8D'', ''8S'', ''9H'', ''9C'', ''9D'', ''9S'', ''TH'',
      ''TC'', ''TD'', ''TS'', ''JH'', ''JC'', ''JD'', ''JS'', ''QH'', ''QC'', ''QD'', ''QS'',
      ''KH'', ''KC'', ''KD'', ''KS'', ''AH'', ''AC'', ''AD'', ''AS'']"

definition round_one :: "call list" where
  "round_one =
     [SubmitPass ''n'' [''2H'', ''3H'', ''4H''], SubmitPass ''e'' [''2C'', ''3C'', ''4C''],
      SubmitPass ''s'' [''2D'', ''3D'', ''4D''], SubmitPass ''w'' [''2S'', ''3S'', ''4S''],
      PlayCard ''s'' ''2C'', PlayCard ''w'' ''2D'', PlayCard ''n'' ''2S'',
      PlayCard ''e'' ''2H'', PlayCard ''s'' ''3C'', PlayCard ''w'' ''3D'',
      PlayCard ''n'' ''3S'', PlayCard ''e'' ''3H'', PlayCard ''s'' ''4C'',
      PlayCard ''w'' ''4D'', PlayCard ''n'' ''4S'', PlayCard ''e'' ''4H'',
      PlayCard ''s'' ''5C'', PlayCard ''w'' ''5D'', PlayCard ''n'' ''5S'',
      PlayCard ''e'' ''5H'', PlayCard ''s'' ''6C'', PlayCard ''w'' ''6D'',
      PlayCard ''n'' ''6S'', PlayCard ''e'' ''6H'', PlayCard ''s'' ''7C'',
      PlayCard ''w'' ''7D'', PlayCard ''n'' ''7S'', PlayCard ''e'' ''7H'',
      PlayCard ''s'' ''8C'', PlayCard ''w'' ''8D'', PlayCard ''n'' ''8S'',
      PlayCard ''e'' ''8H'', PlayCard ''s'' ''9C'', PlayCard ''w'' ''9D'',
      PlayCard ''n'' ''9S'', PlayCard ''e'' ''9H'', PlayCard ''s'' ''TC'',
      PlayCard ''w'' ''TD'', PlayCard ''n'' ''TS'', PlayCard ''e'' ''TH'',
      PlayCard ''s'' ''JC'', PlayCard ''w'' ''JD'', PlayCard ''n'' ''JS'',
      PlayCard ''e'' ''JH'', PlayCard ''s'' ''QC'', PlayCard ''w'' ''QD'',
      PlayCard ''n'' ''QS'', PlayCard ''e'' ''QH'', PlayCard ''s'' ''KC'',
      PlayCard ''w'' ''KD'', PlayCard ''n'' ''KS'', PlayCard ''e'' ''KH'',
      PlayCard ''s'' ''AC'', PlayCard ''w'' ''AD'', PlayCard ''n'' ''AS'',
      PlayCard ''e'' ''AH'']"

definition round_two :: "call list" where
  "round_two =
     [SubmitPass ''n'' [''2D'', ''3D'', ''4D''], SubmitPass ''e'' [''2S'', ''3S'', ''4S''],
      SubmitPass ''s'' [''2H'', ''3H'', ''4H''], SubmitPass ''w'' [''2C'', ''3C'', ''4C''],
      PlayCard ''s'' ''2C'', PlayCard ''w'' ''2D'', PlayCard ''n'' ''2S'',
      PlayCard ''e'' ''2H'', PlayCard ''s'' ''3C'', PlayCard ''w'' ''3D'',
      PlayCard ''n'' ''3S'', PlayCard ''e'' ''3H'', PlayCard ''s'' ''4C'',
      PlayCard ''w'' ''4D'', PlayCard ''n'' ''4S'', PlayCard ''e'' ''4H'',
      PlayCard ''s'' ''5C'', PlayCard ''w'' ''5D'', PlayCard ''n'' ''5S'',
      PlayCard ''e'' ''5H'', PlayCard ''s'' ''6C'', PlayCard ''w'' ''6D'',
      PlayCard ''n'' ''6S'', PlayCard ''e'' ''6H'', PlayCard ''s'' ''7C'',
      PlayCard ''w'' ''7D'', PlayCard ''n'' ''7S'', PlayCard ''e'' ''7H'',
      PlayCard ''s'' ''8C'', PlayCard ''w'' ''8D'', PlayCard ''n'' ''8S'',
      PlayCard ''e'' ''8H'', PlayCard ''s'' ''9C'', PlayCard ''w'' ''9D'',
      PlayCard ''n'' ''9S'', PlayCard ''e'' ''9H'', PlayCard ''s'' ''TC'',
      PlayCard ''w'' ''TD'', PlayCard ''n'' ''TS'', PlayCard ''e'' ''TH'',
      PlayCard ''s'' ''JC'', PlayCard ''w'' ''JD'', PlayCard ''n'' ''JS'',
      PlayCard ''e'' ''JH'', PlayCard ''s'' ''QC'', PlayCard ''w'' ''QD'',
      PlayCard ''n'' ''QS'', PlayCard ''e'' ''QH'', PlayCard ''s'' ''KC'',
      PlayCard ''w'' ''KD'', PlayCard ''n'' ''KS'', PlayCard ''e'' ''KH'',
      PlayCard ''s'' ''AC'', PlayCard ''w'' ''AD'', PlayCard ''n'' ''AS'',
      PlayCard ''e'' ''AH'']"

definition round_three :: "call list" where
  "round_three =
     [SubmitPass ''n'' [''2D'', ''3D'', ''4D''], SubmitPass ''e'' [''2S'', ''3S'', ''4S''],
      SubmitPass ''s'' [''2H'', ''3H'', ''4H''], SubmitPass ''w'' [''2C'', ''3C'', ''4C''],
      PlayCard ''e'' ''2C'', PlayCard ''s'' ''2D'', PlayCard ''w'' ''2S'',
      PlayCard ''n'' ''2H'', PlayCard ''e'' ''3C'', PlayCard ''s'' ''3D'',
      PlayCard ''w'' ''3S'', PlayCard ''n'' ''3H'', PlayCard ''e'' ''4C'',
      PlayCard ''s'' ''4D'', PlayCard ''w'' ''4S'', PlayCard ''n'' ''4H'',
      PlayCard ''e'' ''5C'', PlayCard ''s'' ''5D'', PlayCard ''w'' ''5S'',
      PlayCard ''n'' ''5H'', PlayCard ''e'' ''6C'', PlayCard ''s'' ''6D'',
      PlayCard ''w'' ''6S'', PlayCard ''n'' ''6H'', PlayCard ''e'' ''7C'',
      PlayCard ''s'' ''7D'', PlayCard ''w'' ''7S'', PlayCard ''n'' ''7H'',
      PlayCard ''e'' ''8C'', PlayCard ''s'' ''8D'', PlayCard ''w'' ''8S'',
      PlayCard ''n'' ''8H'', PlayCard ''e'' ''9C'', PlayCard ''s'' ''9D'',
      PlayCard ''w'' ''9S'', PlayCard ''n'' ''9H'', PlayCard ''e'' ''TC'',
      PlayCard ''s'' ''TD'', PlayCard ''w'' ''TS'', PlayCard ''n'' ''TH'',
      PlayCard ''e'' ''JC'', PlayCard ''s'' ''JD'', PlayCard ''w'' ''JS'',
      PlayCard ''n'' ''JH'', PlayCard ''e'' ''QC'', PlayCard ''s'' ''QD'',
      PlayCard ''w'' ''QS'', PlayCard ''n'' ''QH'', PlayCard ''e'' ''KC'',
      PlayCard ''s'' ''KD'', PlayCard ''w'' ''KS'', PlayCard ''n'' ''KH'',
      PlayCard ''e'' ''AC'', PlayCard ''s'' ''AD'', PlayCard ''w'' ''AS'',
      PlayCard ''n'' ''AH'']"

definition round_four :: "call list" where
  "round_four =
     [PlayCard ''e'' ''2C'', PlayCard ''s'' ''2D'', PlayCard ''w'' ''2S'',
      PlayCard ''n'' ''2H'', PlayCard ''e'' ''3C'', PlayCard ''s'' ''3D'',
      PlayCard ''w'' ''3S'', PlayCard ''n'' ''3H'', PlayCard ''e'' ''4C'',
      PlayCard ''s'' ''4D'', PlayCard ''w'' ''4S'', PlayCard ''n'' ''4H'',
      PlayCard ''e'' ''5C'', PlayCard ''s'' ''5D'', PlayCard ''w'' ''5S'',
      PlayCard ''n'' ''5H'', PlayCard ''e'' ''6C'', PlayCard ''s'' ''6D'',
      PlayCard ''w'' ''6S'', PlayCard ''n'' ''6H'', PlayCard ''e'' ''7C'',
      PlayCard ''s'' ''7D'', PlayCard ''w'' ''7S'', PlayCard ''n'' ''7H'',
      PlayCard ''e'' ''8C'', PlayCard ''s'' ''8D'', PlayCard ''w'' ''8S'',
      PlayCard ''n'' ''8H'', PlayCard ''e'' ''9C'', PlayCard ''s'' ''9D'',
      PlayCard ''w'' ''9S'', PlayCard ''n'' ''9H'', PlayCard ''e'' ''TC'',
      PlayCard ''s'' ''TD'', PlayCard ''w'' ''TS'', PlayCard ''n'' ''TH'',
      PlayCard ''e'' ''JC'', PlayCard ''s'' ''JD'', PlayCard ''w'' ''JS'',
      PlayCard ''n'' ''JH'', PlayCard ''e'' ''QC'', PlayCard ''s'' ''QD'',
      PlayCard ''w'' ''QS'', PlayCard ''n'' ''QH'', PlayCard ''e'' ''KC'',
      PlayCard ''s'' ''KD'', PlayCard ''w'' ''KS'', PlayCard ''n'' ''KH'',
      PlayCard ''e'' ''AC'', PlayCard ''s'' ''AD'', PlayCard ''w'' ''AS'',
      PlayCard ''n'' ''AH'']"

definition full_game :: "call list" where
  "full_game =
     StartRound deck_one # round_one @ StartNextRound deck_two # round_two @
     StartNextRound deck_three # round_three @ StartNextRound deck_four # round_four"

definition game_end :: GameState where
  "game_end =
     \<lparr>players = four_players,
      scores = [(''n'', 104), (''e'', 52), (''s'', 52), (''w'', 104)],
      hands = [(''n'', []), (''e'', []), (''s'', []), (''w'', [])],
      hearts_broken = True, trick = [],
      last_trick = [(''e'', ''AC''), (''s'', ''AD''), (''w'', ''AS''), (''n'', ''AH'')],
      current_turn = Some ''e'', round_index = 4, trick_index = 12,
      phase = ''game_over'', pass_dir = 3, pending_pass = [],
      taken_points_round = [(''n'', 0), (''e'', 26), (''s'', 0), (''w'', 0)],
      winner_id = Some ''e''\<rparr>"

subsection \<open>States at the end of a round\<close>

text \<open>What \<open>finish_round\<close> needs of a state not to raise \<open>KeyError\<close> and to see a
  moon shooter: \<open>taken_points_round\<close> is a dictionary (its keys are distinct), each of its
  seats has a score, and no seat identifier is the empty string (the room's identifiers
  are eight hexadecimal digits).\<close>

definition scoring_ok :: "GameState \<Rightarrow> bool" where
  "scoring_ok s \<longleftrightarrow>
     distinct (map fst (taken_points_round s)) \<and>
     fst ` set (taken_points_round s) \<subseteq> fst ` set (scores s) \<and>
     [] \<notin> fst ` set (taken_points_round s)"

text \<open>The last trick of a round has been taken: a round in which the second seat took all
  26 points, and a round after which two seats are tied at the lowest score while another
  passes 100.\<close>

definition moon_state :: GameState where
  "moon_state =
     demo_end\<lparr>phase := ''playing'',
       scores := [(''n'', 10), (''e'', 30), (''s'', 20), (''w'', 0)],
       taken_points_round := [(''n'', 0), (''e'', 26), (''s'', 0), (''w'', 0)]\<rparr>"

definition tie_state :: GameState where
  "tie_state =
     demo_end\<lparr>phase := ''playing'',
       scores := [(''n'', 90), (''e'', 70), (''s'', 70), (''w'', 80)],
       taken_points_round := [(''n'', 13), (''e'', 0), (''s'', 0), (''w'', 13)]\<rparr>"

subsection \<open>The cards in play and the turn\<close>

text \<open>All the cards of the hands; the two blocks of \<open>play_card\<close> after its checks (the
  card is played, then the completed trick is taken), which \<open>play_card_unfold\<close> shows to
  be its body; and what holds of the turn in the states of a game.\<close>

definition all_cards :: "(string \<times> card list) list \<Rightarrow> card list" where
  "all_cards hs = concat (map snd hs)"

definition take_trick :: "GameState \<Rightarrow> error + bool \<times> GameState" where
  "take_trick s3 =
     bindE (trick_winner (trick s3)) (\<lambda>winner.
     bindE (mapE (\<lambda>(_, c'). card_points c') (trick s3)) (\<lambda>pts.
     bindE (dict_get (taken_points_round s3) winner) (\<lambda>old.
       let s4 = s3\<lparr>taken_points_round :=
                      AList.update winner (old + sum_list pts) (taken_points_round s3),
                    last_trick := trick s3, trick := [],
                    current_turn := Some winner\<rparr>
       in if \<forall>h \<in> set (map snd (hands s4)). length h = 0
          then bindE (finish_round s4) (\<lambda>s5. Inr (True, s5))
          else Inr (True, s4\<lparr>trick_index := trick_index s4 + 1\<rparr>))))"

definition play_accepted :: "string \<Rightarrow> card \<Rightarrow> GameState \<Rightarrow> error + bool \<times> GameState" where
  "play_accepted player_id c s =
     (let hand = dict_get_default (hands s) player_id [];
          s1 = (if trick s = [] then s\<lparr>last_trick := []\<rparr> else s);
          s2 = s1\<lparr>hands := AList.update player_id (remove1 c hand) (hands s1),
                  trick := trick s1 @ [(player_id, c)]\<rparr>
      in bindE (card_suit c) (\<lambda>suit.
        let s3 = (if suit = ''H'' then s2\<lparr>hearts_broken := True\<rparr> else s2) in
        if length (trick s3) < length (players s3) then
          bindE (next_player player_id s3) (\<lambda>np. Inr (True, s3\<lparr>current_turn := Some np\<rparr>))
        else take_trick s3))"

definition turn_inv :: "GameState \<Rightarrow> bool" where
  "turn_inv s \<longleftrightarrow>
     length (players s) = 4 \<and>
     phase s \<in> {''passing'', ''playing'', ''round_end'', ''game_over''} \<and>
     (current_turn s = None \<longleftrightarrow> phase s = ''passing'') \<and>
     (phase s = ''passing'' \<longrightarrow> trick s = [] \<and> ''2C'' \<in> set (all_cards (hands s))) \<and>
     (phase s = ''playing'' \<longrightarrow> length (trick s) < 4)"

subsection \<open>The pass exchange\<close>

text \<open>The hand \<open>sort_hand\<close> returns, where it returns; the seat that receives the pass of
  the seat at position \<open>i\<close>, as \<open>pass_map\<close> computes it; and an accepted submission in a
  state of the passing phase: the seats are distinct and are the keys of \<open>hands\<close>, every
  held card is a card, \<open>pending_pass\<close> is a dictionary, and every pending pass, the
  submitted one included, is made of different cards that its seat holds.\<close>

definition sorted_hand :: "card list \<Rightarrow> card list" where
  "sorted_hand h = (case sort_hand h of Inr h' \<Rightarrow> h' | Inl _ \<Rightarrow> h)"

definition receiver :: "GameState \<Rightarrow> nat \<Rightarrow> string" where
  "receiver s i = pass_target (player_order s) (pass_dir s) i (player_order s ! i)"

definition exchange_ready :: "string \<Rightarrow> card list \<Rightarrow> GameState \<Rightarrow> bool" where
  "exchange_ready pid cards s \<longleftrightarrow>
     phase s = ''passing'' \<and> length cards = 3 \<and>
     distinct (player_order s) \<and> map fst (hands s) = player_order s \<and>
     (\<forall>c \<in> set (all_cards (hands s)). is_card c) \<and>
     distinct (map fst (pending_pass s)) \<and>
     (\<forall>qc \<in> set (AList.update pid cards (pending_pass s)).
        fst qc \<in> set (player_order s) \<and> distinct (snd qc) \<and>
        set (snd qc) \<subseteq> set (dict_get_default (hands s) (fst qc) []))"

subsection \<open>What every state of a game satisfies\<close>

text \<open>The seats of \<open>taken_points_round\<close> and of \<open>scores\<close> are those of the players; the
  keys of \<open>hands\<close> are those the deal created, every held card is a card, and a pending
  pass is three cards that its seat holds, none being pending outside the passing
  phase.\<close>

definition seats_inv :: "GameState \<Rightarrow> bool" where
  "seats_inv s \<longleftrightarrow>
     distinct (map fst (taken_points_round s)) \<and>
     fst ` set (taken_points_round s) = id_p ` set (players s) \<and>
     fst ` set (scores s) = id_p ` set (players s)"

definition passing_inv :: "GameState \<Rightarrow> bool" where
  "passing_inv s \<longleftrightarrow>
     map fst (dict_from_players (players s) ([] :: card list)) = map fst (hands s) \<and>
     (\<forall>c \<in> set (all_cards (hands s)). is_card c) \<and>
     distinct (map fst (pending_pass s)) \<and>
     (\<forall>qc \<in> set (pending_pass s).
        fst qc \<in> set (map fst (hands s)) \<and> length (snd qc) = 3 \<and>
        set (snd qc) \<subseteq> set (dict_get_default (hands s) (fst qc) [])) \<and>
     (phase s \<noteq> ''passing'' \<longrightarrow> pending_pass s = [])"

text \<open>The score of the seat at position \<open>j\<close> of the players list; seat \<open>i\<close> is the
  first lowest seat when no seat has a lower score and every seat before it in the players
  list has a strictly higher one; and what holds of \<open>scores\<close> and \<open>winner_id\<close> in the
  states of a game: the keys of \<open>scores\<close> are the seats in the order of the players list,
  and when the game is over the winner is the first entry of \<open>scores\<close> with the lowest
  score.\<close>

definition seat_score :: "GameState \<Rightarrow> nat \<Rightarrow> int" where
  "seat_score s j = dict_get_default (scores s) (player_order s ! j) 0"

definition first_lowest :: "GameState \<Rightarrow> nat \<Rightarrow> bool" where
  "first_lowest s i \<longleftrightarrow>
     i < length (player_order s) \<and>
     (\<forall>j < length (player_order s).
        seat_score s i \<le> seat_score s j \<and> (j < i \<longrightarrow> seat_score s i < seat_score s j))"

definition winner_inv :: "GameState \<Rightarrow> bool" where
  "winner_inv s \<longleftrightarrow>
     map fst (scores s) = player_order s \<and>
     (phase s = ''game_over'' \<longrightarrow>
        (\<exists>pre w v post. scores s = pre @ (w, v) # post \<and> winner_id s = Some w \<and>
           (\<forall>x \<in> set pre. v < snd x) \<and> (\<forall>x \<in> set post. v \<le> snd x)))"

section \<open>Properties\<close>

subsection \<open>Exceptions\<close>

lemma bindE_simps [simp]:
  "bindE (Inl e) f = Inl e"
  "bindE (Inr x) f = f x"
  by (simp_all add: bindE_def)

lemma filterE_total:
  "\<forall>x \<in> set xs. f x = Inr (P x) \<Longrightarrow> filterE f xs = Inr (filter P xs)"
  by (induction xs) auto

subsection \<open>Cards\<close>

lemma card_suit_long: "1 < length c \<Longrightarrow> card_suit c = Inr (suit_of c)"
  by (simp add: suit_of_def card_suit_def)

lemma filter_suit:
  "\<forall>c \<in> set hand. 1 < length c \<Longrightarrow>
   filterE (\<lambda>c. bindE (card_suit c) (\<lambda>s. Inr (Q s))) hand = Inr (filter (\<lambda>c. Q (suit_of c)) hand)"
  by (rule filterE_total) (simp add: card_suit_long)

lemma is_point_card_long: "1 < length c \<Longrightarrow> is_point_card c = Inr (point_card c)"
  by (auto simp: is_point_card_def card_points_def card_suit_long point_card_def)

lemma filter_points:
  "\<forall>c \<in> set hand. 1 < length c \<Longrightarrow>
   filterE (\<lambda>c. bindE (is_point_card c) (\<lambda>b. Inr (\<not> b))) hand = Inr (filter (\<lambda>c. \<not> point_card c) hand)"
  by (rule filterE_total) (simp add: is_point_card_long)

lemma is_card_iff: "is_card c \<longleftrightarrow> (\<exists>suit \<in> set SUITS. \<exists>rank \<in> set RANKS. c = rank @ suit)"
  by (auto simp: is_card_def make_deck_def)

lemma RANKS_single: "rank \<in> set RANKS \<Longrightarrow> \<exists>x. rank = [x]"
  by (auto simp: RANKS_def)

lemma SUITS_single: "suit \<in> set SUITS \<Longrightarrow> \<exists>x. suit = [x]"
  by (auto simp: SUITS_def)

lemma is_card_shape:
  "is_card c \<Longrightarrow> \<exists>r s. c = [r, s] \<and> [r] \<in> set RANKS \<and> [s] \<in> set SUITS"
proof -
  assume "is_card c"
  then obtain suit rank where sr: "suit \<in> set SUITS" "rank \<in> set RANKS" "c = rank @ suit"
    by (auto simp: is_card_iff)
  from RANKS_single[OF sr(2)] SUITS_single[OF sr(1)] obtain r s where "rank = [r]" "suit = [s]"
    by blast
  with sr show ?thesis by auto
qed

lemma is_card_length: "is_card c \<Longrightarrow> 1 < length c"
  by (auto dest: is_card_shape)

lemma is_card_suit: "is_card c \<Longrightarrow> card_suit c = Inr (suit_of c)"
  by (rule card_suit_long) (rule is_card_length)

lemma RANK_VALUE_total: "rank \<in> set RANKS \<Longrightarrow> \<exists>v. map_of RANK_VALUE rank = Some v"
  by (auto simp: RANK_VALUE_def RANKS_def)

lemma rank_value_total: "is_card c \<Longrightarrow> \<exists>r. rank_value c = Inr r"
proof -
  assume "is_card c"
  then obtain r s where c: "c = [r, s]" "[r] \<in> set RANKS"
    using is_card_shape by blast
  from RANK_VALUE_total[OF c(2)] show ?thesis
    by (auto simp: c(1) rank_value_def card_rank_def dict_get_def)
qed

lemma is_card_rank: "is_card c \<Longrightarrow> rank_value c = Inr (rank_of c)"
  using rank_value_total[of c] by (auto simp: rank_of_def)

subsection \<open>Legal moves\<close>

lemma legal_moves_nonempty:
  "hand \<noteq> [] \<Longrightarrow> legal_moves hand tr hb ft =
     (case tr of
        [] \<Rightarrow>
          if ft then Inr (if ''2C'' \<in> set hand then [''2C''] else [hd hand])
          else if hb then Inr hand
          else bindE (filterE (\<lambda>c. bindE (card_suit c) (\<lambda>s. Inr (s \<noteq> ''H''))) hand)
                 (\<lambda>non_hearts. Inr (if non_hearts \<noteq> [] then non_hearts else hand))
      | first # _ \<Rightarrow>
          bindE (card_suit (snd first)) (\<lambda>lead_suit.
          bindE (filterE (\<lambda>c. bindE (card_suit c) (\<lambda>s. Inr (s = lead_suit))) hand) (\<lambda>suited.
            if suited \<noteq> [] then Inr suited
            else if ft then
              bindE (filterE (\<lambda>c. bindE (is_point_card c) (\<lambda>b. Inr (\<not> b))) hand)
                (\<lambda>non_points. Inr (if non_points \<noteq> [] then non_points else hand))
            else Inr hand)))"
proof (cases hand)
  case Nil
  assume "hand \<noteq> []"
  with Nil show ?thesis by simp
next
  case (Cons h t)
  show ?thesis unfolding Cons
    by (simp add: legal_moves_def split: list.split)
qed

text \<open>
  C5.  The seat leads (the trick is empty).  An empty hand has no legal move.  For a
  non-empty hand: on the first trick of the round the result is the two of clubs alone
  when the hand holds it, and otherwise the single card \<open>hand[0]\<close>; on a later trick it
  is the whole hand when hearts are broken, and when they are not (the hand being one of
  cards, each of two characters at least) it is the hand's non-hearts in hand order, or
  the whole hand when the hand has only hearts.  The hand of the two of clubs and the ace
  of hearts gives the two of clubs only.
\<close>

theorem legal_moves_lead:
  "legal_moves [] [] hb ft = Inr [] \<and>
   legal_moves [''2C'', ''AH''] [] hb True = Inr [''2C''] \<and>
   (hand \<noteq> [] \<longrightarrow>
      legal_moves hand [] hb True = Inr (if ''2C'' \<in> set hand then [''2C''] else [hd hand]) \<and>
      legal_moves hand [] True False = Inr hand \<and>
      ((\<forall>c \<in> set hand. 1 < length c) \<longrightarrow>
         legal_moves hand [] False False =
           Inr (if \<exists>c \<in> set hand. suit_of c \<noteq> ''H''
                then filter (\<lambda>c. suit_of c \<noteq> ''H'') hand else hand)))"
proof -
  have "legal_moves [] [] hb ft = Inr []"
    by (simp add: legal_moves_def)
  moreover have "legal_moves [''2C'', ''AH''] [] hb True = Inr [''2C'']"
    by (simp add: legal_moves_def)
  moreover have "legal_moves hand [] False False =
           Inr (if \<exists>c \<in> set hand. suit_of c \<noteq> ''H''
                then filter (\<lambda>c. suit_of c \<noteq> ''H'') hand else hand)"
    if "hand \<noteq> []" and "\<forall>c \<in> set hand. 1 < length c"
    using that by (simp add: legal_moves_nonempty filter_suit filter_empty_conv)
  ultimately show ?thesis
    by (simp add: legal_moves_nonempty)
qed

theorem legal_moves_lead_witness:
  "legal_moves [''3C'', ''AH''] [] False True = Inr [''3C''] \<and>
   legal_moves [''3C'', ''AH''] [] True False = Inr [''3C'', ''AH''] \<and>
   legal_moves [''3C'', ''AH''] [] False False = Inr [''3C''] \<and>
   legal_moves [''KH'', ''AH''] [] False False = Inr [''KH'', ''AH'']"
  using legal_moves_lead [of False True "[''3C'', ''AH'']"]
    legal_moves_lead [of False True "[''KH'', ''AH'']"]
  by (simp add: suit_of_def card_suit_def)

text \<open>
  C6.  The seat follows (the trick is not empty; hand and lead card are cards, each of
  two characters at least).  The result is the held cards of the lead suit, in hand
  order, when there is one; otherwise, on the first trick of the round, the held cards
  that are neither hearts nor the queen of spades, or the whole hand when every held card
  is a point card; otherwise the whole hand.
\<close>

theorem legal_moves_follow:
  assumes "hand \<noteq> []" and "\<forall>c \<in> set hand. 1 < length c" and "1 < length lead_card"
  shows "legal_moves hand ((p, lead_card) # rest) hb ft =
    Inr (if \<exists>c \<in> set hand. suit_of c = suit_of lead_card
         then filter (\<lambda>c. suit_of c = suit_of lead_card) hand
         else if ft then
           (if \<exists>c \<in> set hand. \<not> point_card c then filter (\<lambda>c. \<not> point_card c) hand else hand)
         else hand)"
  using assms
  by (simp add: legal_moves_nonempty filter_suit filter_points card_suit_long filter_empty_conv)


theorem legal_moves_follow_witness:
  "legal_moves [''3C'', ''QS'', ''AH''] [(''n'', ''2C'')] False True = Inr [''3C''] \<and>
   legal_moves [''3D'', ''QS'', ''AH''] [(''n'', ''2C'')] False True = Inr [''3D''] \<and>
   legal_moves [''QS'', ''AH''] [(''n'', ''2C'')] False True = Inr [''QS'', ''AH''] \<and>
   legal_moves [''3D'', ''QS'', ''AH''] [(''n'', ''4C'')] False False = Inr [''3D'', ''QS'', ''AH'']"
  using legal_moves_follow [of "[''3C'', ''QS'', ''AH'']" "''2C''" "''n''" "[]" False True]
    legal_moves_follow [of "[''3D'', ''QS'', ''AH'']" "''2C''" "''n''" "[]" False True]
    legal_moves_follow [of "[''QS'', ''AH'']" "''2C''" "''n''" "[]" False True]
    legal_moves_follow [of "[''3D'', ''QS'', ''AH'']" "''4C''" "''n''" "[]" False False]
  by (simp add: suit_of_def card_suit_def point_card_def)

subsection \<open>The winner of a trick\<close>

lemma trick_loop_spec:
  assumes "\<forall>pc \<in> set (w # rest). is_card (snd pc)" and "suit_of (snd w) = lead"
  shows "\<exists>pre win post. w # rest = pre @ win # post \<and> trick_loop lead w rest = Inr (fst win) \<and>
           suit_of (snd win) = lead \<and>
           (\<forall>x \<in> set pre. suit_of (snd x) = lead \<longrightarrow> rank_of (snd x) < rank_of (snd win)) \<and>
           (\<forall>x \<in> set post. suit_of (snd x) = lead \<longrightarrow> rank_of (snd x) \<le> rank_of (snd win))"
  using assms
proof (induction rest arbitrary: w)
  case Nil
  have "[w] = [] @ w # []" by simp
  with Nil show ?case by (intro exI[of _ "[]"] exI[of _ w]) simp
next
  case (Cons pc rest)
  obtain p c where pc: "pc = (p, c)" by (cases pc)
  have cards: "is_card c" "is_card (snd w)" "\<forall>x \<in> set rest. is_card (snd x)"
    using Cons.prems(1) pc by auto
  show ?case
  proof (cases "suit_of c = lead \<and> rank_of (snd w) < rank_of c")
    case True
    have step: "trick_loop lead w (pc # rest) = trick_loop lead pc rest"
      using True cards by (simp add: pc is_card_suit is_card_rank)
    have "\<forall>x \<in> set (pc # rest). is_card (snd x)" using cards pc by simp
    moreover have "suit_of (snd pc) = lead" using True pc by simp
    ultimately obtain pre win post where
      d: "pc # rest = pre @ win # post" "trick_loop lead pc rest = Inr (fst win)"
         "suit_of (snd win) = lead"
         "\<forall>x \<in> set pre. suit_of (snd x) = lead \<longrightarrow> rank_of (snd x) < rank_of (snd win)"
         "\<forall>x \<in> set post. suit_of (snd x) = lead \<longrightarrow> rank_of (snd x) \<le> rank_of (snd win)"
      using Cons.IH[of pc] by blast
    have "rank_of c \<le> rank_of (snd win)"
    proof (cases pre)
      case Nil
      with d(1) have "win = pc" by simp
      then show ?thesis by (simp add: pc)
    next
      case (Cons a pre')
      with d(1) have "pc \<in> set pre" by simp
      with d(4) True show ?thesis by (auto simp: pc)
    qed
    with True have "rank_of (snd w) < rank_of (snd win)" by simp
    with d step show ?thesis
      by (intro exI[of _ "w # pre"] exI[of _ win] exI[of _ post]) simp
  next
    case False
    have step: "trick_loop lead w (pc # rest) = trick_loop lead w rest"
      using False cards by (auto simp: pc is_card_suit is_card_rank)
    have "\<forall>x \<in> set (w # rest). is_card (snd x)" using cards by simp
    then obtain pre win post where
      d: "w # rest = pre @ win # post" "trick_loop lead w rest = Inr (fst win)"
         "suit_of (snd win) = lead"
         "\<forall>x \<in> set pre. suit_of (snd x) = lead \<longrightarrow> rank_of (snd x) < rank_of (snd win)"
         "\<forall>x \<in> set post. suit_of (snd x) = lead \<longrightarrow> rank_of (snd x) \<le> rank_of (snd win)"
      using Cons.IH[of w] Cons.prems(2) by blast
    show ?thesis
    proof (cases pre)
      case Nil
      with d(1) have w: "win = w" "post = rest" by simp_all
      have "w # pc # rest = [] @ w # (pc # rest)" by simp
      moreover have "suit_of (snd pc) = lead \<longrightarrow> rank_of (snd pc) \<le> rank_of (snd w)"
        using False pc by auto
      ultimately show ?thesis using d step w
        by (intro exI[of _ "[]"] exI[of _ w] exI[of _ "pc # rest"]) simp
    next
      case (Cons a pre')
      with d(1) have a: "a = w" "rest = pre' @ win # post" by simp_all
      have "w \<in> set pre" using Cons a by simp
      with d(4) Cons.prems(2) have "rank_of (snd w) < rank_of (snd win)" by simp
      then have "suit_of (snd pc) = lead \<longrightarrow> rank_of (snd pc) < rank_of (snd win)"
        using False pc by auto
      then show ?thesis using d step a Cons
        by (intro exI[of _ "w # pc # pre'"] exI[of _ win] exI[of _ post]) auto
    qed
  qed
qed

lemma is_card_spec_suit: "is_card c \<Longrightarrow> suit_of c = spec_suit c"
  by (auto dest!: is_card_shape simp: suit_of_def card_suit_def spec_suit_def)

lemma rank_value_table:
  "\<forall>r \<in> set ''23456789TJQKA''.
     rank_value [r, s] = Inr (spec_rank [r, s] - 2) \<and> 2 \<le> spec_rank [r, s]"
  by (simp add: rank_value_def card_rank_def dict_get_def RANK_VALUE_def RANKS_def
      spec_rank_def rank_table_def bindE_def)

lemma is_card_spec_rank: "is_card c \<Longrightarrow> rank_value c = Inr (spec_rank c - 2) \<and> 2 \<le> spec_rank c"
proof -
  assume "is_card c"
  then obtain r s where c: "c = [r, s]" "[r] \<in> set RANKS"
    using is_card_shape by blast
  from c(2) have "r \<in> set ''23456789TJQKA''" by (auto simp: RANKS_def)
  with rank_value_table[of s] show ?thesis unfolding c(1) by blast
qed

lemma rank_of_spec:
  "is_card c \<Longrightarrow> is_card d \<Longrightarrow> rank_of c < rank_of d \<longleftrightarrow> spec_rank c < spec_rank d"
  using is_card_spec_rank[of c] is_card_spec_rank[of d]
  by (auto simp: rank_of_def)

lemma rank_of_spec_le:
  "is_card c \<Longrightarrow> is_card d \<Longrightarrow> rank_of c \<le> rank_of d \<longleftrightarrow> spec_rank c \<le> spec_rank d"
  using is_card_spec_rank[of c] is_card_spec_rank[of d]
  by (auto simp: rank_of_def)

lemma first_highest_unique:
  assumes "first_highest tr i" and "first_highest tr k"
  shows "i = k"
proof (rule ccontr)
  assume "i \<noteq> k"
  then consider "i < k" | "k < i" by linarith
  then show False
  proof cases
    case 1
    with assms show False unfolding first_highest_def
      by (metis leD)
  next
    case 2
    with assms show False unfolding first_highest_def
      by (metis leD)
  qed
qed

lemma first_highest_exists:
  assumes "tr \<noteq> []" and "\<forall>pc \<in> set tr. is_card (snd pc)"
  shows "\<exists>i. first_highest tr i \<and> trick_winner tr = Inr (fst (tr ! i))"
proof -
  from assms(1) obtain w rest where tr: "tr = w # rest" by (cases tr) auto
  have run: "trick_winner tr = trick_loop (suit_of (snd w)) w rest"
    using assms(2) by (simp add: tr trick_winner_def is_card_suit)
  from trick_loop_spec[of w rest "suit_of (snd w)"] assms(2) obtain pre win post where
    d: "tr = pre @ win # post" "trick_loop (suit_of (snd w)) w rest = Inr (fst win)"
       "suit_of (snd win) = suit_of (snd w)"
       "\<forall>x \<in> set pre. suit_of (snd x) = suit_of (snd w) \<longrightarrow> rank_of (snd x) < rank_of (snd win)"
       "\<forall>x \<in> set post. suit_of (snd x) = suit_of (snd w) \<longrightarrow> rank_of (snd x) \<le> rank_of (snd win)"
    unfolding tr by auto
  let ?i = "length pre"
  have i: "?i < length tr" "tr ! ?i = win" by (simp_all add: d(1))
  have w0: "tr ! 0 = w" by (simp add: tr)
  have cards: "is_card (snd (tr ! j))" if "j < length tr" for j
    using assms(2) that by simp
  have win_card: "is_card (snd win)" using cards[OF i(1)] i(2) by simp
  have w_card: "is_card (snd w)" using assms(2) tr by simp
  have suit_win: "spec_suit (snd (tr ! ?i)) = spec_suit (snd (tr ! 0))"
    using d(3) win_card w_card by (simp add: i(2) w0 is_card_spec_suit)
  have cmp: "spec_rank (snd (tr ! j)) \<le> spec_rank (snd (tr ! ?i)) \<and>
        (j < ?i \<longrightarrow> spec_rank (snd (tr ! j)) < spec_rank (snd (tr ! ?i)))"
    if j: "j < length tr" and sj: "spec_suit (snd (tr ! j)) = spec_suit (snd (tr ! 0))" for j
  proof -
    have cj: "is_card (snd (tr ! j))" by (rule cards[OF j])
    from sj cj w_card have sj': "suit_of (snd (tr ! j)) = suit_of (snd w)"
      by (simp add: w0 is_card_spec_suit)
    consider "j < ?i" | "j = ?i" | "?i < j" by linarith
    then show ?thesis
    proof cases
      case 1
      then have "tr ! j \<in> set pre" by (simp add: d(1) nth_append)
      with d(4) sj' have "rank_of (snd (tr ! j)) < rank_of (snd win)" by simp
      with cj win_card have "spec_rank (snd (tr ! j)) < spec_rank (snd win)"
        by (simp add: rank_of_spec)
      then show ?thesis by (simp add: i(2))
    next
      case 2
      then show ?thesis by simp
    next
      case 3
      then have "tr ! j = post ! (j - ?i - 1)" by (simp add: d(1) nth_append)
      moreover have "j - ?i - 1 < length post" using 3 j by (simp add: d(1))
      ultimately have "tr ! j \<in> set post" by simp
      with d(5) sj' have "rank_of (snd (tr ! j)) \<le> rank_of (snd win)" by simp
      with cj win_card have "spec_rank (snd (tr ! j)) \<le> spec_rank (snd win)"
        by (simp add: rank_of_spec_le)
      with 3 show ?thesis by (simp add: i(2))
    qed
  qed
  have "first_highest tr ?i"
    unfolding first_highest_def using i(1) suit_win cmp by blast
  moreover have "trick_winner tr = Inr (fst (tr ! ?i))"
    using run d(2) i(2) by simp
  ultimately show ?thesis by blast
qed

text \<open>
  C7.  For a non-empty trick of cards, some play is the first highest play of the trick, and
  \<open>trick_winner\<close> returns the seat of that play: it is of the lead suit (the suit of the
  first play), no play of the lead suit has a higher rank, and every earlier play of the
  lead suit has a strictly lower rank, so that among several plays of the highest rank the
  first wins.  A play of another suit is never the winner, whatever its rank.  Suit and
  rank are read from the card's characters (\<open>spec_suit\<close>, \<open>spec_rank\<close>: 2 lowest, ace
  highest).
\<close>

theorem trick_winner_first_highest:
  assumes "tr \<noteq> []" and "\<forall>pc \<in> set tr. is_card (snd pc)"
  shows "(\<exists>i. first_highest tr i) \<and>
    (\<forall>i. first_highest tr i \<longrightarrow> trick_winner tr = Inr (fst (tr ! i)))"
proof -
  from first_highest_exists[OF assms] obtain k where
    k: "first_highest tr k" "trick_winner tr = Inr (fst (tr ! k))" by blast
  have "trick_winner tr = Inr (fst (tr ! i))" if "first_highest tr i" for i
    using first_highest_unique[OF that k(1)] k(2) by simp
  with k(1) show ?thesis by blast
qed

theorem trick_winner_first_highest_witness:
  "first_highest [(''n'', ''5D''), (''e'', ''AC''), (''s'', ''KD''), (''w'', ''2D'')] 2 \<and>
   trick_winner [(''n'', ''5D''), (''e'', ''AC''), (''s'', ''KD''), (''w'', ''2D'')] = Inr ''s'' \<and>
   first_highest [(''n'', ''5D''), (''e'', ''KD''), (''s'', ''AC''), (''w'', ''KD'')] 1 \<and>
   trick_winner [(''n'', ''5D''), (''e'', ''KD''), (''s'', ''AC''), (''w'', ''KD'')] = Inr ''e''"
proof -
  have cards: "\<forall>pc \<in> set [(''n'', ''5D''), (''e'', ''AC''), (''s'', ''KD''), (''w'', ''2D'')].
      is_card (snd pc)"
    "\<forall>pc \<in> set [(''n'', ''5D''), (''e'', ''KD''), (''s'', ''AC''), (''w'', ''KD'')].
      is_card (snd pc)"
    by (simp_all add: is_card_def make_deck_def RANKS_def SUITS_def)
  have a: "first_highest [(''n'', ''5D''), (''e'', ''AC''), (''s'', ''KD''), (''w'', ''2D'')] 2"
    by (simp add: first_highest_def spec_suit_def spec_rank_def rank_table_def less_Suc_eq
        numeral_eq_Suc all_conj_distrib)
  have b: "first_highest [(''n'', ''5D''), (''e'', ''KD''), (''s'', ''AC''), (''w'', ''KD'')] 1"
    by (simp add: first_highest_def spec_suit_def spec_rank_def rank_table_def less_Suc_eq
        numeral_eq_Suc all_conj_distrib)
  show ?thesis
    using trick_winner_first_highest [OF _ cards(1)] trick_winner_first_highest [OF _ cards(2)] a b
    by simp
qed

subsection \<open>Runs\<close>

lemma run_simps [simp]:
  "run [] s = Inr s"
  "run (c # cs) s = bindE (apply_call c s) (run cs)"
  by (simp_all add: run_def bindE_def split: sum.split)

lemma reachable_run:
  "reachable s \<Longrightarrow> list_all call_ok calls \<Longrightarrow> run calls s = Inr s' \<Longrightarrow> reachable s'"
proof (induction calls arbitrary: s)
  case Nil
  then show ?case by simp
next
  case (Cons c cs)
  from Cons.prems(3) obtain s1 where s1: "apply_call c s = Inr s1" "run cs s1 = Inr s'"
    by (cases "apply_call c s") auto
  from Cons.prems(1,2) s1(1) have "reachable s1"
    by (auto intro: reach_call)
  with Cons.IH s1(2) Cons.prems(2) show ?case by simp
qed

lemma demo_start_run: "start_round make_deck (init_game four_players) = Inr demo_start"
  by code_simp

lemma demo_end_run: "run (tl demo_round) demo_start = Inr demo_end"
  by code_simp

lemma reachable_demo_start: "reachable demo_start"
proof -
  have shuf: "shuffled make_deck" by (simp add: shuffled_def)
  have len: "length four_players = 4" by (simp add: four_players_def)
  show ?thesis by (rule reach_start[OF len shuf demo_start_run])
qed

lemma reachable_start_run:
  assumes "length ps = 4" and "list_all call_ok (StartRound deck # calls)"
    and "run (StartRound deck # calls) (init_game ps) = Inr s"
  shows "reachable s"
proof -
  from assms(3) obtain s1 where s1: "start_round deck (init_game ps) = Inr s1" "run calls s1 = Inr s"
    by (cases "start_round deck (init_game ps)") auto
  from assms(2) have ok: "shuffled deck" "list_all call_ok calls" by simp_all
  from assms(1) ok(1) s1(1) have "reachable s1" by (rule reach_start)
  then show ?thesis using ok(2) s1(2) by (rule reachable_run)
qed

lemma full_game_ok: "list_all call_ok full_game"
  by code_simp

lemma full_game_run: "run full_game (init_game four_players) = Inr game_end"
  by code_simp

lemma reachable_game_end: "reachable game_end"
proof -
  have len: "length four_players = 4" by (simp add: four_players_def)
  show ?thesis
    using len full_game_ok full_game_run unfolding full_game_def by (rule reachable_start_run)
qed

subsection \<open>Rejected calls\<close>

lemma submit_pass_rejected:
  "phase s \<noteq> ''passing'' \<or> length cards \<noteq> 3 \<or>
   (\<exists>c \<in> set cards. c \<notin> set (dict_get_default (hands s) pid [])) \<Longrightarrow>
   submit_pass pid cards s = Inr (False, s)"
  by (auto simp: submit_pass_def)

lemma play_card_rejected:
  "phase s \<noteq> ''playing'' \<or> current_turn s \<noteq> Some pid \<or>
   c \<notin> set (dict_get_default (hands s) pid []) \<Longrightarrow>
   play_card pid c s = Inr (False, s)"
  by (auto simp: play_card_def)

text \<open>
  C1.  The code does not do what the claim says for a pass list with a duplicated card.
  After the deal of the demonstration round the phase is \<open>passing\<close> and the first seat
  holds the two of clubs once.  Its pass of three times the two of clubs is not rejected:
  the call returns \<open>True\<close> and stores the list in \<open>pending_pass\<close>.  When the other three
  seats have passed, the exchange removes the two of clubs from the first seat's hand and
  then raises \<open>ValueError\<close> on the second \<open>remove\<close>.
\<close>

theorem duplicate_pass_not_rejected:
  "phase demo_start = ''passing'' \<and>
   count_list (dict_get_default (hands demo_start) ''n'' []) ''2C'' = 1 \<and>
   submit_pass ''n'' [''2C'', ''2C'', ''2C''] demo_start =
     Inr (True, demo_start\<lparr>pending_pass := [(''n'', [''2C'', ''2C'', ''2C''])]\<rparr>) \<and>
   run [SubmitPass ''n'' [''2C'', ''2C'', ''2C''], SubmitPass ''e'' [''3C'', ''7C'', ''JC''],
        SubmitPass ''s'' [''4C'', ''8C'', ''QC''], SubmitPass ''w'' [''5C'', ''9C'', ''KC'']]
     demo_start = Inl ValueError"
  by code_simp

subsection \<open>Hearts broken\<close>

lemma finish_round_hearts_broken:
  "finish_round s = Inr s' \<Longrightarrow> hearts_broken s' = hearts_broken s"
  by (auto simp: finish_round_def Let_def bindE_def split: sum.splits if_splits option.splits)

lemma play_card_hearts_broken:
  "play_card pid c s = Inr (b, s') \<Longrightarrow> hearts_broken s \<Longrightarrow> hearts_broken s'"
  by (auto simp: play_card_def Let_def bindE_def split: sum.splits if_splits
      dest: finish_round_hearts_broken)

lemma play_card_heart:
  "play_card pid c s = Inr (True, s') \<Longrightarrow> card_suit c = Inr ''H'' \<Longrightarrow> hearts_broken s'"
  by (auto simp: play_card_def Let_def bindE_def split: sum.splits if_splits
      dest: finish_round_hearts_broken)

lemma submit_pass_hearts_broken:
  "submit_pass pid cards s = Inr (b, s') \<Longrightarrow> hearts_broken s' = hearts_broken s"
  by (auto simp: submit_pass_def Let_def bindE_def split: sum.splits if_splits)

lemma start_round_hearts_broken:
  "start_round deck s = Inr s' \<Longrightarrow> \<not> hearts_broken s'"
  by (auto simp: start_round_def Let_def bindE_def split: sum.splits if_splits)

text \<open>
  C9.  An accepted \<open>play_card\<close> of a heart leaves \<open>hearts_broken\<close> true; \<open>play_card\<close>
  (with the \<open>finish_round\<close> it may call), \<open>submit_pass\<close> and a refused
  \<open>start_next_round\<close> never turn it from true to false; \<open>start_round\<close>, also when
  \<open>start_next_round\<close> calls it, leaves it false.
\<close>

theorem hearts_broken_monotone:
  "(play_card pid c s = Inr (True, s') \<longrightarrow> card_suit c = Inr ''H'' \<longrightarrow> hearts_broken s') \<and>
   (play_card pid c s = Inr (b, s') \<longrightarrow> hearts_broken s \<longrightarrow> hearts_broken s') \<and>
   (submit_pass pid cards s = Inr (b, s') \<longrightarrow> hearts_broken s' = hearts_broken s) \<and>
   (finish_round s = Inr s' \<longrightarrow> hearts_broken s' = hearts_broken s) \<and>
   (start_next_round deck s = Inr (False, s') \<longrightarrow> hearts_broken s' = hearts_broken s) \<and>
   (start_round deck s = Inr s' \<longrightarrow> \<not> hearts_broken s') \<and>
   (start_next_round deck s = Inr (True, s') \<longrightarrow> \<not> hearts_broken s')"
proof -
  have "hearts_broken s' = hearts_broken s" if "start_next_round deck s = Inr (False, s')"
    using that by (auto simp: start_next_round_def bindE_def split: if_splits sum.splits)
  moreover have "\<not> hearts_broken s'" if "start_next_round deck s = Inr (True, s')"
    using that
    by (auto simp: start_next_round_def bindE_def split: if_splits sum.splits
        dest: start_round_hearts_broken)
  ultimately show ?thesis
    using play_card_heart play_card_hearts_broken submit_pass_hearts_broken
      finish_round_hearts_broken start_round_hearts_broken
    by blast
qed

theorem hearts_broken_monotone_witness:
  "\<not> hearts_broken (demo_state 41) \<and>
   play_card ''w'' ''2H'' (demo_state 41) = Inr (True, demo_state 42) \<and>
   hearts_broken (demo_state 42) \<and>
   play_card ''n'' ''3H'' (demo_state 42) = Inr (True, demo_state 43) \<and>
   hearts_broken (demo_state 43) \<and>
   start_round make_deck (demo_state 43) = Inr demo_start \<and>
   \<not> hearts_broken demo_start"
proof -
  have a: "play_card ''w'' ''2H'' (demo_state 41) = Inr (True, demo_state 42)" by code_simp
  have b: "card_suit ''2H'' = Inr ''H''" by code_simp
  have c: "play_card ''n'' ''3H'' (demo_state 42) = Inr (True, demo_state 43)" by code_simp
  have d: "start_round make_deck (demo_state 43) = Inr demo_start" by code_simp
  have e: "\<not> hearts_broken (demo_state 41)" by code_simp
  show ?thesis
    using a b c d e
      hearts_broken_monotone [of "''w''" "''2H''" "demo_state 41" "demo_state 42"]
      hearts_broken_monotone [of "''n''" "''3H''" "demo_state 42" "demo_state 43" True]
      hearts_broken_monotone [of _ _ "demo_state 43" demo_start _ _ make_deck]
    by simp
qed

subsection \<open>The turn at the end of a round\<close>

text \<open>
  C2.  The code does not do what the claim says at the end of a round.  The demonstration
  round is a run of the four entry points from a new game; its last call, the play of the
  king of hearts by the third seat, returns \<open>True\<close> with the phase \<open>round_end\<close> and an
  empty trick, and \<open>current_turn\<close> is not \<open>None\<close>: it is still the seat that won the
  last trick, to which \<open>play_card\<close> set it before it called \<open>finish_round\<close>, which
  never touches it (\<open>start_round\<close> does clear it when it opens the passing phase).  The
  same holds after the last card of the game of four rounds, in the phase \<open>game_over\<close>.
\<close>

theorem round_end_keeps_current_turn:
  "reachable demo_end \<and> phase demo_end = ''round_end'' \<and> trick demo_end = [] \<and>
   current_turn demo_end = Some ''w'' \<and> trick_winner (last_trick demo_end) = Inr ''w'' \<and>
   run [PlayCard ''s'' ''KH''] (demo_state 56) = Inr demo_end \<and>
   phase (demo_state 56) = ''playing'' \<and> current_turn (demo_state 56) = Some ''s'' \<and>
   \<not> (current_turn demo_end \<noteq> None \<longleftrightarrow>
        phase demo_end = ''playing'' \<and> length (trick demo_end) < 4) \<and>
   reachable game_end \<and> phase game_end = ''game_over'' \<and> current_turn game_end = Some ''e''"
proof -
  have ok: "list_all call_ok (tl demo_round)"
    by (simp add: demo_round_def)
  have r: "reachable demo_end"
    by (rule reachable_run[OF reachable_demo_start ok demo_end_run])
  have w: "trick_winner (last_trick demo_end) = Inr ''w''" by code_simp
  have p: "run [PlayCard ''s'' ''KH''] (demo_state 56) = Inr demo_end" by code_simp
  have q: "phase (demo_state 56) = ''playing''" "current_turn (demo_state 56) = Some ''s''"
    by code_simp+
  have "phase demo_end = ''round_end''" "trick demo_end = []" "current_turn demo_end = Some ''w''"
    by (simp_all add: demo_end_def)
  moreover have "phase game_end = ''game_over''" "current_turn game_end = Some ''e''"
    by (simp_all add: game_end_def)
  ultimately show ?thesis using r w p q reachable_game_end by simp
qed

subsection \<open>The end of a round\<close>

lemma max_default_ge:
  "b \<le> max_default xs 0 \<longleftrightarrow> (xs = [] \<and> b \<le> 0) \<or> (\<exists>x \<in> set xs. b \<le> x)"
proof (cases xs)
  case Nil
  then show ?thesis by (simp add: max_default_def)
next
  case (Cons x rest)
  have "fold max rest x = Max (set (x # rest))"
    by (rule Max.set_eq_fold[symmetric])
  then have "max_default xs 0 = Max (set xs)"
    by (simp add: Cons max_default_def)
  moreover have "b \<le> Max (set xs) \<longleftrightarrow> (\<exists>x \<in> set xs. b \<le> x)"
    by (rule Max_ge_iff) (simp_all add: Cons)
  ultimately show ?thesis using Cons by simp
qed

lemma min_key_loop_spec:
  "\<exists>pre win post. best # rest = pre @ win # post \<and> min_key_loop best rest = fst win \<and>
     (\<forall>x \<in> set pre. snd win < snd x) \<and> (\<forall>x \<in> set post. snd win \<le> snd x)"
proof (induction rest arbitrary: best)
  case Nil
  have "[best] = [] @ best # []" by simp
  then show ?case by fastforce
next
  case (Cons kv rest)
  show ?case
  proof (cases "snd kv < snd best")
    case True
    obtain pre win post where
      d: "kv # rest = pre @ win # post" "min_key_loop kv rest = fst win"
         "\<forall>x \<in> set pre. snd win < snd x" "\<forall>x \<in> set post. snd win \<le> snd x"
      using Cons.IH[of kv] by blast
    have "snd win \<le> snd kv"
    proof (cases pre)
      case Nil
      with d(1) show ?thesis by simp
    next
      case (Cons a pre')
      with d(1) have "kv \<in> set pre" by simp
      with d(3) show ?thesis by auto
    qed
    with True have lt: "snd win < snd best" by simp
    have "best # kv # rest = (best # pre) @ win # post"
      using d(1) by simp
    moreover have "min_key_loop best (kv # rest) = fst win"
      using True d(2) by simp
    moreover have "\<forall>x \<in> set (best # pre). snd win < snd x"
      using lt d(3) by simp
    ultimately show ?thesis using d(4) by blast
  next
    case False
    obtain pre win post where
      d: "best # rest = pre @ win # post" "min_key_loop best rest = fst win"
         "\<forall>x \<in> set pre. snd win < snd x" "\<forall>x \<in> set post. snd win \<le> snd x"
      using Cons.IH[of best] by blast
    have run: "min_key_loop best (kv # rest) = fst win"
      using False d(2) by simp
    show ?thesis
    proof (cases pre)
      case Nil
      with d(1) have w: "win = best" "post = rest" by simp_all
      have "best # kv # rest = [] @ win # (kv # post)"
        using w by simp
      moreover have "\<forall>x \<in> set (kv # post). snd win \<le> snd x"
        using False w d(4) by simp
      moreover have "\<forall>x \<in> set ([] :: (string \<times> int) list). snd win < snd x" by simp
      ultimately show ?thesis using run by blast
    next
      case (Cons a pre')
      with d(1) have a: "a = best" "rest = pre' @ win # post" by simp_all
      have "best \<in> set pre" using Cons a by simp
      with d(3) have "snd win < snd best" by simp
      with False have kv: "snd win < snd kv" by simp
      have "best # kv # rest = (best # kv # pre') @ win # post"
        using a by simp
      moreover have "\<forall>x \<in> set (best # kv # pre'). snd win < snd x"
        using kv d(3) Cons a(1) by simp
      ultimately show ?thesis using run d(4) by blast
    qed
  qed
qed

lemma min_key_spec:
  "d \<noteq> [] \<Longrightarrow> \<exists>pre w v post. d = pre @ (w, v) # post \<and> min_key d = Inr w \<and>
     (\<forall>x \<in> set pre. v < snd x) \<and> (\<forall>x \<in> set post. v \<le> snd x)"
proof -
  assume "d \<noteq> []"
  then obtain kv rest where d: "d = kv # rest" by (cases d) auto
  from min_key_loop_spec[of kv rest] obtain pre win post where
    w: "kv # rest = pre @ win # post" "min_key_loop kv rest = fst win"
    "\<forall>x \<in> set pre. snd win < snd x" "\<forall>x \<in> set post. snd win \<le> snd x" by blast
  have "d = pre @ (fst win, snd win) # post" using w(1) d by simp
  moreover have "min_key d = Inr (fst win)" using w(2) by (simp add: d min_key_def)
  ultimately show ?thesis using w(3,4) by blast
qed

lemma find_moon_shooter_None:
  "find_moon_shooter taken = None \<longleftrightarrow> (\<forall>kv \<in> set taken. snd kv \<noteq> 26)"
  by (induction taken) (auto split: if_splits)

lemma find_moon_shooter_Some:
  "find_moon_shooter taken = Some p \<Longrightarrow> (p, 26) \<in> set taken"
  by (induction taken) (auto split: if_splits)

lemma add_points_fold:
  assumes "distinct (map fst taken)" and "fst ` set taken \<subseteq> fst ` set sc"
  shows "\<exists>sc'. foldE add_points taken sc = Inr sc' \<and> map fst sc' = map fst sc \<and>
     (\<forall>pid. map_of sc' pid =
        (case map_of taken pid of None \<Rightarrow> map_of sc pid
         | Some pts \<Rightarrow> map_option (\<lambda>v. v + pts) (map_of sc pid)))"
  using assms
proof (induction taken arbitrary: sc)
  case Nil
  then show ?case by simp
next
  case (Cons kv taken)
  obtain p pts where kv: "kv = (p, pts)" by (cases kv)
  from Cons.prems(2) kv have "p \<in> fst ` set sc" by simp
  then obtain v where v: "map_of sc p = Some v"
    by (metis domD dom_map_of_conv_image_fst)
  let ?sc1 = "AList.update p (v + pts) sc"
  have step: "add_points kv sc = Inr ?sc1"
    by (simp add: add_points_def dict_get_def kv v)
  have keys1: "map fst ?sc1 = map fst sc"
    using \<open>p \<in> fst ` set sc\<close> by (simp add: update_keys)
  then have "fst ` set ?sc1 = fst ` set sc"
    by (metis list.set_map)
  with Cons.prems kv have "distinct (map fst taken)" "fst ` set taken \<subseteq> fst ` set ?sc1"
    by auto
  from Cons.IH[OF this] obtain sc' where
    sc': "foldE add_points taken ?sc1 = Inr sc'" "map fst sc' = map fst ?sc1"
      "\<forall>pid. map_of sc' pid =
        (case map_of taken pid of None \<Rightarrow> map_of ?sc1 pid
         | Some pts \<Rightarrow> map_option (\<lambda>v. v + pts) (map_of ?sc1 pid))"
    by blast
  have p_fresh: "map_of taken p = None"
    using Cons.prems(1) kv by (simp add: map_of_eq_None_iff)
  have "map_of sc' pid =
        (case map_of (kv # taken) pid of None \<Rightarrow> map_of sc pid
         | Some pts \<Rightarrow> map_option (\<lambda>v. v + pts) (map_of sc pid))" for pid
    using sc'(3) p_fresh v by (auto simp: kv update_conv' split: option.splits)
  with sc'(1,2) step keys1 show ?case by simp
qed


lemma moon_scores:
  "map_of (map (\<lambda>(pid, v). if pid = ms then (pid, v) else (pid, v + 26)) sc) pid =
     map_option (\<lambda>v. if pid = ms then v else v + (26::int)) (map_of sc pid)"
  by (induction sc) auto

lemma moon_keys:
  "map fst (map (\<lambda>(pid, v). if pid = ms then (pid, v) else (pid, v + (26::int))) sc) = map fst sc"
  by (induction sc) auto

lemma finish_round_unfold:
  "finish_round s =
     bindE
       (case find_moon_shooter (taken_points_round s) of
          Some ms \<Rightarrow>
            if ms \<noteq> [] then
              Inr (map (\<lambda>(pid, v). if pid = ms then (pid, v) else (pid, v + 26)) (scores s))
            else foldE add_points (taken_points_round s) (scores s)
        | None \<Rightarrow> foldE add_points (taken_points_round s) (scores s))
       (\<lambda>sc.
          if 100 \<le> max_default (map snd sc) 0
          then bindE (min_key sc) (\<lambda>w.
                 Inr (s\<lparr>scores := sc, round_index := round_index s + 1,
                        phase := ''game_over'', winner_id := Some w\<rparr>))
          else Inr (s\<lparr>phase := ''round_end'', scores := sc,
                      round_index := round_index s + 1\<rparr>))"
  by (simp add: finish_round_def Let_def cong: if_cong option.case_cong)

lemma finish_round_spec:
  assumes "scoring_ok s"
  shows "\<exists>s'. finish_round s = Inr s' \<and>
    map fst (scores s') = map fst (scores s) \<and>
    round_index s' = round_index s + 1 \<and>
    (\<forall>pid. map_of (scores s') pid =
       (case find_moon_shooter (taken_points_round s) of
          Some ms \<Rightarrow> map_option (\<lambda>v. if pid = ms then v else v + 26) (map_of (scores s) pid)
        | None \<Rightarrow>
           (case map_of (taken_points_round s) pid of None \<Rightarrow> map_of (scores s) pid
            | Some pts \<Rightarrow> map_option (\<lambda>v. v + pts) (map_of (scores s) pid)))) \<and>
    (if \<exists>kv \<in> set (scores s'). 100 \<le> snd kv
     then phase s' = ''game_over'' \<and>
       (\<exists>pre w v post. scores s' = pre @ (w, v) # post \<and> winner_id s' = Some w \<and>
          (\<forall>x \<in> set pre. v < snd x) \<and> (\<forall>x \<in> set post. v \<le> snd x))
     else phase s' = ''round_end'' \<and> winner_id s' = winner_id s)"
proof -
  let ?taken = "taken_points_round s"
  let ?step = "case find_moon_shooter ?taken of
              Some ms \<Rightarrow>
                if ms \<noteq> [] then
                  Inr (map (\<lambda>(pid, v). if pid = ms then (pid, v) else (pid, v + 26)) (scores s))
                else foldE add_points ?taken (scores s)
            | None \<Rightarrow> foldE add_points ?taken (scores s)"
  from assms have ok: "distinct (map fst ?taken)" "fst ` set ?taken \<subseteq> fst ` set (scores s)"
    "[] \<notin> fst ` set ?taken"
    by (simp_all add: scoring_ok_def)
  have "\<exists>sc'. ?step = Inr sc' \<and> map fst sc' = map fst (scores s) \<and>
    (\<forall>pid. map_of sc' pid =
       (case find_moon_shooter ?taken of
          Some ms \<Rightarrow> map_option (\<lambda>v. if pid = ms then v else v + 26) (map_of (scores s) pid)
        | None \<Rightarrow>
           (case map_of ?taken pid of None \<Rightarrow> map_of (scores s) pid
            | Some pts \<Rightarrow> map_option (\<lambda>v. v + pts) (map_of (scores s) pid))))"
  proof (cases "find_moon_shooter ?taken")
    case None
    with add_points_fold[OF ok(1,2)] show ?thesis by simp
  next
    case (Some ms)
    then have "(ms, 26) \<in> set ?taken" by (rule find_moon_shooter_Some)
    then have "ms \<in> fst ` set ?taken" by force
    with ok(3) have "ms \<noteq> []" by blast
    with Some show ?thesis by (auto simp: moon_scores split: prod.split)
  qed
  then obtain sc' where sc': "?step = Inr sc'" "map fst sc' = map fst (scores s)"
    "\<forall>pid. map_of sc' pid =
       (case find_moon_shooter ?taken of
          Some ms \<Rightarrow> map_option (\<lambda>v. if pid = ms then v else v + 26) (map_of (scores s) pid)
        | None \<Rightarrow>
           (case map_of ?taken pid of None \<Rightarrow> map_of (scores s) pid
            | Some pts \<Rightarrow> map_option (\<lambda>v. v + pts) (map_of (scores s) pid)))"
    by blast
  have fin: "finish_round s =
      (if 100 \<le> max_default (map snd sc') 0
       then bindE (min_key sc') (\<lambda>w.
              Inr (s\<lparr>scores := sc', round_index := round_index s + 1,
                     phase := ''game_over'', winner_id := Some w\<rparr>))
       else Inr (s\<lparr>phase := ''round_end'', scores := sc',
                   round_index := round_index s + 1\<rparr>))"
    unfolding finish_round_unfold sc'(1) by simp
  show ?thesis
  proof (cases "\<exists>kv \<in> set sc'. 100 \<le> snd kv")
    case True
    then have ge: "100 \<le> max_default (map snd sc') 0"
      by (auto simp: max_default_ge)
    from True have "sc' \<noteq> []" by auto
    from min_key_spec[OF this] obtain pre w v post where
      w: "sc' = pre @ (w, v) # post" "min_key sc' = Inr w"
         "\<forall>x \<in> set pre. v < snd x" "\<forall>x \<in> set post. v \<le> snd x"
      by blast
    have "finish_round s = Inr (s\<lparr>scores := sc', round_index := round_index s + 1,
        phase := ''game_over'', winner_id := Some w\<rparr>)"
      using fin ge w(2) by simp
    moreover have "\<exists>pre w' v post. sc' = pre @ (w', v) # post \<and> Some w = Some w' \<and>
          (\<forall>x \<in> set pre. v < snd x) \<and> (\<forall>x \<in> set post. v \<le> snd x)"
      using w by blast
    ultimately show ?thesis using True sc'(2,3) by simp
  next
    case False
    then have "\<not> 100 \<le> max_default (map snd sc') 0"
      by (auto simp: max_default_ge)
    with fin have "finish_round s =
        Inr (s\<lparr>phase := ''round_end'', scores := sc', round_index := round_index s + 1\<rparr>)"
      by simp
    then show ?thesis using False sc'(2,3) by simp
  qed
qed

lemma moon_shooter_unique:
  assumes "distinct (map fst taken)" and "map_of taken ms = Some 26"
    and "\<forall>q. q \<noteq> ms \<longrightarrow> map_of taken q \<noteq> Some 26"
  shows "find_moon_shooter taken = Some ms"
proof (cases "find_moon_shooter taken")
  case None
  from assms(2) have "(ms, 26) \<in> set taken" by (rule map_of_SomeD)
  with None show ?thesis by (auto simp: find_moon_shooter_None)
next
  case (Some p)
  then have "(p, 26) \<in> set taken" by (rule find_moon_shooter_Some)
  with assms(1) have "map_of taken p = Some 26" by simp
  with assms(3) Some show ?thesis by auto
qed

lemma no_moon_shooter:
  assumes "distinct (map fst taken)" and "\<forall>q. map_of taken q \<noteq> Some 26"
  shows "find_moon_shooter taken = None"
proof -
  have "snd kv \<noteq> 26" if "kv \<in> set taken" for kv
  proof
    assume "snd kv = 26"
    with that have "(fst kv, 26) \<in> set taken" by (metis prod.collapse)
    with assms(1) have "map_of taken (fst kv) = Some 26" by simp
    with assms(2) show False by simp
  qed
  then show ?thesis by (simp add: find_moon_shooter_None)
qed

text \<open>
  C4.  In a state whose round has been played (\<open>scoring_ok\<close>), \<open>finish_round\<close> returns,
  and: if one seat, and no other, has 26 points in \<open>taken_points_round\<close>, its score is
  unchanged and every other seat's score grows by 26; if no seat has 26 points, every
  seat's score grows by the points it took.
\<close>

theorem round_scoring:
  assumes "scoring_ok s"
  shows "\<exists>s'. finish_round s = Inr s' \<and>
    (\<forall>ms. map_of (taken_points_round s) ms = Some 26 \<and>
          (\<forall>q. q \<noteq> ms \<longrightarrow> map_of (taken_points_round s) q \<noteq> Some 26) \<longrightarrow>
       (\<forall>pid v. map_of (scores s) pid = Some v \<longrightarrow>
          map_of (scores s') pid = Some (if pid = ms then v else v + 26))) \<and>
    ((\<forall>q. map_of (taken_points_round s) q \<noteq> Some 26) \<longrightarrow>
       (\<forall>pid v pts. map_of (scores s) pid = Some v \<longrightarrow>
          map_of (taken_points_round s) pid = Some pts \<longrightarrow>
          map_of (scores s') pid = Some (v + pts)))"
proof -
  from assms have dist: "distinct (map fst (taken_points_round s))"
    by (simp add: scoring_ok_def)
  from finish_round_spec[OF assms] obtain s' where
    fin: "finish_round s = Inr s'" and
    sc: "\<forall>pid. map_of (scores s') pid =
       (case find_moon_shooter (taken_points_round s) of
          Some ms \<Rightarrow> map_option (\<lambda>v. if pid = ms then v else v + 26) (map_of (scores s) pid)
        | None \<Rightarrow>
           (case map_of (taken_points_round s) pid of None \<Rightarrow> map_of (scores s) pid
            | Some pts \<Rightarrow> map_option (\<lambda>v. v + pts) (map_of (scores s) pid)))"
    by blast
  have "map_of (scores s') pid = Some (if pid = ms then v else v + 26)"
    if "map_of (taken_points_round s) ms = Some 26"
      and "\<forall>q. q \<noteq> ms \<longrightarrow> map_of (taken_points_round s) q \<noteq> Some 26"
      and "map_of (scores s) pid = Some v" for ms pid v
    using sc moon_shooter_unique[OF dist that(1,2)] that(3) by simp
  moreover have "map_of (scores s') pid = Some (v + pts)"
    if "\<forall>q. map_of (taken_points_round s) q \<noteq> Some 26"
      and "map_of (scores s) pid = Some v" and "map_of (taken_points_round s) pid = Some pts"
    for pid v pts
    using sc no_moon_shooter[OF dist that(1)] that(2,3) by simp
  ultimately show ?thesis using fin by blast
qed

lemma scoring_ok_examples: "scoring_ok moon_state" "scoring_ok tie_state" "scoring_ok (demo_state 57)"
  by code_simp+

theorem round_scoring_witness:
  "scoring_ok moon_state \<and>
   (\<exists>s'. finish_round moon_state = Inr s' \<and>
      scores s' = [(''n'', 36), (''e'', 30), (''s'', 46), (''w'', 26)]) \<and>
   scoring_ok (demo_state 57) \<and>
   (\<exists>s'. finish_round ((demo_state 57)\<lparr>scores := [(''n'', 1), (''e'', 1), (''s'', 1), (''w'', 1)]\<rparr>) = Inr s' \<and>
      scores s' = [(''n'', 1), (''e'', 1), (''s'', 19), (''w'', 9)])"
proof -
  have a: "finish_round moon_state = Inr (moon_state\<lparr>phase := ''round_end'',
      scores := [(''n'', 36), (''e'', 30), (''s'', 46), (''w'', 26)], round_index := 2\<rparr>)"
    by code_simp
  have ok: "scoring_ok ((demo_state 57)\<lparr>scores := [(''n'', 1), (''e'', 1), (''s'', 1), (''w'', 1)]\<rparr>)"
    by code_simp
  have b: "finish_round ((demo_state 57)\<lparr>scores := [(''n'', 1), (''e'', 1), (''s'', 1), (''w'', 1)]\<rparr>) =
      Inr ((demo_state 57)\<lparr>scores := [(''n'', 1), (''e'', 1), (''s'', 19), (''w'', 9)],
             round_index := 2\<rparr>)"
    by code_simp
  show ?thesis
    using round_scoring[OF scoring_ok_examples(1)] round_scoring[OF ok] a b
      scoring_ok_examples by simp
qed

text \<open>
  C8.  In such a state \<open>finish_round\<close> returns and counts the round; if after the scoring
  some score is 100 or more, the phase is \<open>game_over\<close> and \<open>winner_id\<close> is a seat whose
  score is lowest; if every score is below 100, the phase is \<open>round_end\<close> and \<open>winner_id\<close>
  is what it was.
\<close>

theorem game_over_at_100:
  assumes "scoring_ok s"
  shows "\<exists>s'. finish_round s = Inr s' \<and> round_index s' = round_index s + 1 \<and>
    ((\<exists>kv \<in> set (scores s'). 100 \<le> snd kv) \<longrightarrow>
       phase s' = ''game_over'' \<and>
       (\<exists>w v. winner_id s' = Some w \<and> (w, v) \<in> set (scores s') \<and>
          (\<forall>kv \<in> set (scores s'). v \<le> snd kv))) \<and>
    ((\<forall>kv \<in> set (scores s'). snd kv < 100) \<longrightarrow>
       phase s' = ''round_end'' \<and> winner_id s' = winner_id s)"
proof -
  from finish_round_spec[OF assms] obtain s' where
    fin: "finish_round s = Inr s'" "round_index s' = round_index s + 1" and
    over: "if \<exists>kv \<in> set (scores s'). 100 \<le> snd kv
     then phase s' = ''game_over'' \<and>
       (\<exists>pre w v post. scores s' = pre @ (w, v) # post \<and> winner_id s' = Some w \<and>
          (\<forall>x \<in> set pre. v < snd x) \<and> (\<forall>x \<in> set post. v \<le> snd x))
     else phase s' = ''round_end'' \<and> winner_id s' = winner_id s"
    by blast
  have "phase s' = ''game_over'' \<and>
       (\<exists>w v. winner_id s' = Some w \<and> (w, v) \<in> set (scores s') \<and>
          (\<forall>kv \<in> set (scores s'). v \<le> snd kv))"
    if big: "\<exists>kv \<in> set (scores s'). 100 \<le> snd kv"
  proof -
    from over big obtain pre w v post where
      w: "phase s' = ''game_over''" "scores s' = pre @ (w, v) # post" "winner_id s' = Some w"
         "\<forall>x \<in> set pre. v < snd x" "\<forall>x \<in> set post. v \<le> snd x"
      by auto
    have "\<forall>kv \<in> set (scores s'). v \<le> snd kv"
      using w(2,4,5) by auto
    moreover have "(w, v) \<in> set (scores s')" using w(2) by simp
    ultimately show ?thesis using w(1,3) by blast
  qed
  moreover have "phase s' = ''round_end'' \<and> winner_id s' = winner_id s"
    if "\<forall>kv \<in> set (scores s'). snd kv < 100"
  proof -
    from that have "\<not> (\<exists>kv \<in> set (scores s'). 100 \<le> snd kv)" by force
    with over show ?thesis by simp
  qed
  ultimately show ?thesis using fin by blast
qed

theorem game_over_at_100_witness:
  "scoring_ok tie_state \<and>
   (\<exists>s'. finish_round tie_state = Inr s' \<and> phase s' = ''game_over'' \<and> winner_id s' = Some ''e'' \<and>
      scores s' = [(''n'', 103), (''e'', 70), (''s'', 70), (''w'', 93)]) \<and>
   scoring_ok moon_state \<and>
   (\<exists>s'. finish_round moon_state = Inr s' \<and> phase s' = ''round_end'' \<and> winner_id s' = None)"
proof -
  have a: "finish_round tie_state = Inr (tie_state\<lparr>phase := ''game_over'',
      scores := [(''n'', 103), (''e'', 70), (''s'', 70), (''w'', 93)], round_index := 2,
      winner_id := Some ''e''\<rparr>)"
    by code_simp
  have b: "finish_round moon_state = Inr (moon_state\<lparr>phase := ''round_end'',
      scores := [(''n'', 36), (''e'', 30), (''s'', 46), (''w'', 26)], round_index := 2\<rparr>)"
    by code_simp
  have c: "winner_id moon_state = None" by code_simp
  show ?thesis
    using game_over_at_100[OF scoring_ok_examples(2)] game_over_at_100[OF scoring_ok_examples(1)]
      a b c scoring_ok_examples by simp
qed

lemma dict_from_players_keys_aux:
  "distinct (map id_p ps) \<Longrightarrow> set (map id_p ps) \<inter> set (map fst d) = {} \<Longrightarrow>
   map fst (fold (\<lambda>p d. AList.update (id_p p) v d) ps d) = map fst d @ map id_p ps"
proof (induction ps arbitrary: d)
  case Nil
  then show ?case by simp
next
  case (Cons p ps)
  let ?d = "AList.update (id_p p) v d"
  from Cons.prems have fresh: "id_p p \<notin> set (map fst d)" by auto
  then have keys: "map fst ?d = map fst d @ [id_p p]"
    by (simp add: update_keys)
  from Cons.prems have "distinct (map id_p ps)" "set (map id_p ps) \<inter> set (map fst ?d) = {}"
    unfolding keys by auto
  from Cons.IH[OF this] keys show ?case by simp
qed

lemma dict_from_players_keys:
  "distinct (map id_p ps) \<Longrightarrow> map fst (dict_from_players ps v) = map id_p ps"
  using dict_from_players_keys_aux[of ps "[]" v] by (simp add: dict_from_players_def)

lemma init_scores_order:
  "distinct (map id_p ps) \<Longrightarrow> map fst (scores (init_game ps)) = map id_p ps"
  by (simp add: init_game_def dict_from_players_keys)

subsection \<open>The cards of the hands\<close>

lemma all_cards_update:
  "map_of hs k = Some h \<Longrightarrow>
   mset (all_cards (AList.update k h' hs)) + mset h = mset (all_cards hs) + mset h'"
  by (induction hs) (auto simp: all_cards_def)

lemma mapE_length: "mapE f xs = Inr ys \<Longrightarrow> length ys = length xs"
  by (induction xs arbitrary: ys) (auto split: sum.splits)

lemma foldE_ConsE:
  assumes "foldE f (x # xs) a = Inr b"
  obtains a' where "f x a = Inr a'" and "foldE f xs a' = Inr b"
  using assms by (cases "f x a") auto

lemma bindE_Inr: "bindE m f = Inr y \<longleftrightarrow> (\<exists>x. m = Inr x \<and> f x = Inr y)"
  by (cases m) auto

lemma dict_get_Inr: "dict_get d k = Inr v \<longleftrightarrow> map_of d k = Some v"
  by (auto simp: dict_get_def split: option.splits)

lemma deal_card_cards:
  "deal_card ps ic hs = Inr hs' \<Longrightarrow> mset (all_cards hs') = mset (all_cards hs) + {#snd ic#}"
proof -
  assume "deal_card ps ic hs = Inr hs'"
  then obtain h where h: "map_of hs (id_p (ps ! (fst ic mod length ps))) = Some h"
    "hs' = AList.update (id_p (ps ! (fst ic mod length ps))) (h @ [snd ic]) hs"
    by (auto simp: deal_card_def Let_def bindE_Inr dict_get_Inr split: if_splits)
  from all_cards_update[OF h(1), of "h @ [snd ic]"] show ?thesis
    unfolding h(2) by simp
qed

lemma deal_loop_cards:
  "foldE (deal_card ps) ics hs = Inr hs' \<Longrightarrow>
   mset (all_cards hs') = mset (all_cards hs) + mset (map snd ics)"
proof (induction ics arbitrary: hs)
  case Nil
  then show ?case by simp
next
  case (Cons ic ics)
  from Cons.prems obtain hs1 where
    "deal_card ps ic hs = Inr hs1" "foldE (deal_card ps) ics hs1 = Inr hs'"
    by (rule foldE_ConsE)
  with Cons.IH[of hs1] deal_card_cards[of ps ic hs hs1] show ?case by simp
qed

lemma sort_hand_mset: "sort_hand h = Inr h' \<Longrightarrow> mset h' = mset h"
proof -
  assume "sort_hand h = Inr h'"
  then obtain keys where k: "mapE card_sort_key h = Inr keys"
    and h': "h' = map snd (sort_key fst (zip keys h))"
    by (auto simp: sort_hand_def bindE_Inr)
  from mapE_length[OF k] have "map snd (zip keys h) = h" by simp
  moreover have "mset (map snd (sort_key fst (zip keys h))) = mset (map snd (zip keys h))"
    by simp
  ultimately show ?thesis unfolding h' by simp
qed

lemma sort_hands_cards:
  "sort_hands hs = Inr hs' \<Longrightarrow> mset (all_cards hs') = mset (all_cards hs) \<and> map fst hs' = map fst hs"
proof (induction hs arbitrary: hs')
  case Nil
  then show ?case by (simp add: sort_hands_def)
next
  case (Cons ph hs)
  obtain p h where ph: "ph = (p, h)" by (cases ph)
  from Cons.prems obtain h1 rest where
    r: "sort_hand h = Inr h1" "sort_hands hs = Inr rest" "hs' = (p, h1) # rest"
    by (auto simp: sort_hands_def ph bindE_def split: sum.splits)
  from Cons.IH[OF r(2)] sort_hand_mset[OF r(1)] show ?case
    by (simp add: r(3) ph all_cards_def)
qed

lemma dict_from_players_empty_aux:
  "all_cards d = [] \<Longrightarrow> all_cards (fold (\<lambda>p d. AList.update (id_p p) [] d) ps d) = []"
proof (induction ps arbitrary: d)
  case Nil
  then show ?case by simp
next
  case (Cons p ps)
  have "all_cards (AList.update k [] d) = []" if "all_cards d = []" for k and d :: "(string \<times> card list) list"
    using that by (induction d) (auto simp: all_cards_def)
  with Cons show ?case by simp
qed

lemma dict_from_players_empty: "all_cards (dict_from_players ps []) = []"
  using dict_from_players_empty_aux[of "[]" ps] by (simp add: dict_from_players_def all_cards_def)

lemma deal_hands_cards:
  "deal_hands ps deck = Inr hs \<Longrightarrow> mset (all_cards hs) = mset deck"
proof -
  assume "deal_hands ps deck = Inr hs"
  then obtain hs0 where
    a: "foldE (deal_card ps) (enumerate 0 deck) (dict_from_players ps []) = Inr hs0"
    and b: "sort_hands hs0 = Inr hs"
    by (auto simp: deal_hands_def bindE_Inr)
  from deal_loop_cards[OF a] sort_hands_cards[OF b] show ?thesis
    by (simp add: dict_from_players_empty)
qed

lemma find_two_clubs_player_None:
  "find_two_clubs_player hs = None \<longleftrightarrow> ''2C'' \<notin> set (all_cards hs)"
proof (induction hs)
  case Nil
  then show ?case by (simp add: all_cards_def)
next
  case (Cons ph hs)
  obtain p h where ph: "ph = (p, h)" by (cases ph)
  show ?case
  proof (cases "''2C'' \<in> set h")
    case True
    then show ?thesis by (simp add: ph all_cards_def)
  next
    case False
    have "all_cards (ph # hs) = h @ all_cards hs" by (simp add: ph all_cards_def)
    with False Cons.IH show ?thesis by (simp add: ph)
  qed
qed

lemma mset_move:
  fixes A B H R C :: "'a multiset"
  assumes "A + H = B + R" and "R + C = H"
  shows "A + C = B"
proof -
  from assms(1) have "A + (R + C) = B + R" unfolding assms(2) .
  then have "(A + C) + R = B + R" by (simp only: ac_simps)
  then show ?thesis by (simp only: add_right_cancel)
qed

lemma remove_card_cards:
  "remove_card pc hs = Inr hs' \<Longrightarrow> mset (all_cards hs') + {#snd pc#} = mset (all_cards hs)"
proof -
  assume "remove_card pc hs = Inr hs'"
  then obtain h where h: "map_of hs (fst pc) = Some h" "snd pc \<in> set h"
    "hs' = AList.update (fst pc) (remove1 (snd pc) h) hs"
    by (auto simp: remove_card_def bindE_Inr dict_get_Inr split: if_splits)
  have "mset (remove1 (snd pc) h) + {#snd pc#} = mset h"
    using h(2) by simp
  with all_cards_update[OF h(1), of "remove1 (snd pc) h"] show ?thesis
    unfolding h(3) by (rule mset_move)
qed

lemma remove_loop_cards:
  "foldE remove_card pcs hs = Inr hs' \<Longrightarrow>
   mset (all_cards hs') + mset (map snd pcs) = mset (all_cards hs)"
proof (induction pcs arbitrary: hs)
  case Nil
  then show ?case by simp
next
  case (Cons pc pcs)
  from Cons.prems obtain hs1 where
    s: "remove_card pc hs = Inr hs1" "foldE remove_card pcs hs1 = Inr hs'"
    by (rule foldE_ConsE)
  from Cons.IH[OF s(2)] remove_card_cards[OF s(1)] show ?case
    by (simp add: ac_simps)
qed

lemma pending_cards:
  "map snd (concat (map (\<lambda>(pid, pass_cards). map (Pair pid) pass_cards) pending)) =
   concat (map snd pending)"
  by (induction pending) (auto simp: comp_def)

lemma remove_passes_cards:
  "remove_passes pending hs = Inr hs' \<Longrightarrow>
   mset (all_cards hs') + mset (concat (map snd pending)) = mset (all_cards hs)"
  using remove_loop_cards[of "concat (map (\<lambda>(pid, pass_cards). map (Pair pid) pass_cards) pending)" hs hs']
  by (simp add: remove_passes_def pending_cards)

lemma extend_pass_cards:
  "extend_pass mapping pp hs = Inr hs' \<Longrightarrow>
   mset (all_cards hs') = mset (all_cards hs) + mset (snd pp)"
proof -
  assume "extend_pass mapping pp hs = Inr hs'"
  then obtain target h where h: "map_of hs target = Some h"
    "hs' = AList.update target (h @ snd pp) hs"
    by (auto simp: extend_pass_def bindE_Inr dict_get_Inr)
  from all_cards_update[OF h(1), of "h @ snd pp"] show ?thesis
    unfolding h(2) by simp
qed

lemma extend_loop_cards:
  "foldE (extend_pass mapping) pending hs = Inr hs' \<Longrightarrow>
   mset (all_cards hs') = mset (all_cards hs) + mset (concat (map snd pending))"
proof (induction pending arbitrary: hs)
  case Nil
  then show ?case by simp
next
  case (Cons pp pending)
  from Cons.prems obtain hs1 where
    s: "extend_pass mapping pp hs = Inr hs1" "foldE (extend_pass mapping) pending hs1 = Inr hs'"
    by (rule foldE_ConsE)
  from Cons.IH[OF s(2)] extend_pass_cards[OF s(1)] show ?case
    by (simp add: ac_simps)
qed

lemma exchange_cards:
  assumes "remove_passes pending hs = Inr hs1"
    and "foldE (extend_pass mapping) pending hs1 = Inr hs2"
    and "sort_hands hs2 = Inr hs3"
  shows "mset (all_cards hs3) = mset (all_cards hs)"
  using remove_passes_cards[OF assms(1)] extend_loop_cards[OF assms(2)]
    sort_hands_cards[OF assms(3)] by simp

lemma two_clubs_in_deck: "shuffled deck \<Longrightarrow> ''2C'' \<in> set deck"
proof -
  assume "shuffled deck"
  then have "set deck = set make_deck"
    unfolding shuffled_def by (rule mset_eq_setD)
  moreover have "''2C'' \<in> set make_deck"
    by (simp add: make_deck_def RANKS_def SUITS_def)
  ultimately show ?thesis by simp
qed

lemma start_round_inv:
  assumes "start_round deck s = Inr s'" and "shuffled deck" and "length (players s) = 4"
  shows "turn_inv s'"
proof -
  from assms(1) obtain hs where hs: "deal_hands (players s) deck = Inr hs"
    by (auto simp: start_round_def bindE_Inr)
  from deal_hands_cards[OF hs] have "set (all_cards hs) = set deck"
    by (rule mset_eq_setD)
  with two_clubs_in_deck[OF assms(2)] have two: "''2C'' \<in> set (all_cards hs)" by simp
  then have "find_two_clubs_player hs \<noteq> None"
    by (simp add: find_two_clubs_player_None)
  with assms(1,3) hs two show ?thesis
    by (auto simp: start_round_def Let_def turn_inv_def split: if_splits)
qed

subsection \<open>The steps of a game\<close>

lemma finish_round_frame:
  assumes "finish_round s = Inr s'"
  shows "current_turn s' = current_turn s \<and> trick s' = trick s \<and> players s' = players s \<and>
    (phase s' = ''round_end'' \<or> phase s' = ''game_over'')"
  using assms
  by (auto simp: finish_round_def Let_def bindE_def split: sum.splits if_splits option.splits)

lemma submit_pass_cases:
  assumes "submit_pass pid cards s = Inr (b, s')"
  shows "(\<not> b \<and> s' = s) \<or>
    (b \<and> phase s = ''passing'' \<and>
       length (AList.update pid cards (pending_pass s)) < length (players s) \<and>
       s' = s\<lparr>pending_pass := AList.update pid cards (pending_pass s)\<rparr>) \<or>
    (b \<and> phase s = ''passing'' \<and>
       \<not> length (AList.update pid cards (pending_pass s)) < length (players s) \<and>
       (\<exists>hs1 hs2 hs3.
          remove_passes (AList.update pid cards (pending_pass s)) (hands s) = Inr hs1 \<and>
          foldE (extend_pass (pass_map (players s) (pass_dir s)))
            (AList.update pid cards (pending_pass s)) hs1 = Inr hs2 \<and>
          sort_hands hs2 = Inr hs3 \<and>
          s' = s\<lparr>hands := hs3, pending_pass := [], phase := ''playing'',
                  current_turn := find_two_clubs_player hs3\<rparr>))"
  using assms
  by (auto simp: submit_pass_def Let_def bindE_def split: sum.splits if_splits)

lemma submit_pass_inv:
  assumes "submit_pass pid cards s = Inr (b, s')" and "turn_inv s"
  shows "turn_inv s'"
proof -
  from submit_pass_cases[OF assms(1)] consider
    (rejected) "s' = s"
  | (stored) "phase s = ''passing''"
      "s' = s\<lparr>pending_pass := AList.update pid cards (pending_pass s)\<rparr>"
  | (fired) hs1 hs2 hs3 where "phase s = ''passing''"
      "remove_passes (AList.update pid cards (pending_pass s)) (hands s) = Inr hs1"
      "foldE (extend_pass (pass_map (players s) (pass_dir s)))
         (AList.update pid cards (pending_pass s)) hs1 = Inr hs2"
      "sort_hands hs2 = Inr hs3"
      "s' = s\<lparr>hands := hs3, pending_pass := [], phase := ''playing'',
               current_turn := find_two_clubs_player hs3\<rparr>"
    by blast
  then show ?thesis
  proof cases
    case rejected
    with assms(2) show ?thesis by simp
  next
    case stored
    with assms(2) show ?thesis by (simp add: turn_inv_def)
  next
    case fired
    from exchange_cards[OF fired(2-4)] have "set (all_cards hs3) = set (all_cards (hands s))"
      by (rule mset_eq_setD)
    with assms(2) fired(1) have "''2C'' \<in> set (all_cards hs3)"
      by (simp add: turn_inv_def)
    then have "find_two_clubs_player hs3 \<noteq> None"
      by (simp add: find_two_clubs_player_None)
    with assms(2) fired(1) show ?thesis
      by (simp add: fired(5) turn_inv_def)
  qed
qed

lemma play_card_unfold:
  "play_card pid c s =
     (if phase s \<noteq> ''playing'' then Inr (False, s)
      else if current_turn s \<noteq> Some pid then Inr (False, s)
      else if c \<notin> set (dict_get_default (hands s) pid []) then Inr (False, s)
      else bindE (legal_moves (dict_get_default (hands s) pid []) (trick s) (hearts_broken s)
                    (trick_index s = 0))
             (\<lambda>legal. if c \<notin> set legal then Inr (False, s) else play_accepted pid c s))"
  unfolding play_card_def play_accepted_def take_trick_def Let_def ..

lemma take_trick_cases:
  assumes "take_trick s3 = Inr (b, s')"
  shows "b \<and> players s' = players s3 \<and> (\<exists>w. current_turn s' = Some w) \<and> trick s' = [] \<and>
    (phase s' = phase s3 \<or> phase s' = ''round_end'' \<or> phase s' = ''game_over'')"
  using assms
  by (auto simp: take_trick_def Let_def bindE_def split: sum.splits if_splits
      dest!: finish_round_frame)

lemma play_accepted_cases:
  assumes "play_accepted pid c s = Inr (b, s')"
  shows "b \<and> players s' = players s \<and> (\<exists>np. current_turn s' = Some np) \<and>
    (phase s' = phase s \<and> trick s' = trick s @ [(pid, c)] \<and>
       length (trick s') < length (players s) \<or>
     (phase s' = phase s \<or> phase s' = ''round_end'' \<or> phase s' = ''game_over'') \<and>
       trick s' = [])"
  using assms
  by (auto simp: play_accepted_def Let_def bindE_def split: sum.splits if_splits
      dest!: take_trick_cases)

lemma play_card_cases:
  assumes "play_card pid c s = Inr (b, s')"
  shows "(\<not> b \<and> s' = s) \<or>
    (b \<and> phase s = ''playing'' \<and> players s' = players s \<and> (\<exists>np. current_turn s' = Some np) \<and>
       (phase s' = ''playing'' \<and> trick s' = trick s @ [(pid, c)] \<and>
          length (trick s') < length (players s) \<or>
        phase s' = ''playing'' \<and> trick s' = [] \<or>
        (phase s' = ''round_end'' \<or> phase s' = ''game_over'') \<and> trick s' = []))"
proof (cases "play_card pid c s = Inr (False, s)")
  case True
  with assms show ?thesis by simp
next
  case False
  with assms have acc: "play_accepted pid c s = Inr (b, s')" and playing: "phase s = ''playing''"
    unfolding play_card_unfold by (auto simp: bindE_def split: if_splits sum.splits)
  from play_accepted_cases[OF acc] playing show ?thesis by auto
qed

lemma play_card_inv:
  assumes "play_card pid c s = Inr (b, s')" and "turn_inv s"
  shows "turn_inv s'"
proof -
  from assms(2) have four: "length (players s) = 4" by (simp add: turn_inv_def)
  from play_card_cases[OF assms(1)] consider
    (rejected) "s' = s"
  | (next_seat) np where "phase s' = ''playing''" "players s' = players s"
      "current_turn s' = Some np" "length (trick s') < length (players s)"
  | (trick_done) np where "phase s' = ''playing''" "players s' = players s"
      "current_turn s' = Some np" "trick s' = []"
  | (round_done) np where "phase s' = ''round_end'' \<or> phase s' = ''game_over''"
      "players s' = players s" "current_turn s' = Some np"
    by blast
  then show ?thesis
  proof cases
    case rejected
    with assms(2) show ?thesis by simp
  next
    case next_seat
    with four show ?thesis by (simp add: turn_inv_def)
  next
    case trick_done
    with four show ?thesis by (simp add: turn_inv_def)
  next
    case round_done
    from round_done(1) have "phase s' \<noteq> ''passing''" "phase s' \<noteq> ''playing''" by auto
    with round_done four show ?thesis unfolding turn_inv_def by simp
  qed
qed

lemma bindE_snd: "bindE m (\<lambda>r. Inr (snd r)) = Inr s' \<Longrightarrow> \<exists>b. m = Inr (b, s')"
  by (cases m) auto

lemma apply_call_inv:
  assumes "apply_call cl s = Inr s'" and "call_ok cl" and "turn_inv s"
  shows "turn_inv s'"
proof (cases cl)
  case (StartRound deck)
  from assms(3) have four: "length (players s) = 4" by (simp add: turn_inv_def)
  from assms(1) StartRound have a: "start_round deck s = Inr s'" by simp
  from assms(2) StartRound have b: "shuffled deck" by simp
  show ?thesis using a b four by (rule start_round_inv)
next
  case (SubmitPass pid cards)
  from assms(1) obtain b where "submit_pass pid cards s = Inr (b, s')"
    unfolding SubmitPass apply_call.simps by (blast dest: bindE_snd)
  then show ?thesis using assms(3) by (rule submit_pass_inv)
next
  case (PlayCard pid c)
  from assms(1) obtain b where "play_card pid c s = Inr (b, s')"
    unfolding PlayCard apply_call.simps by (blast dest: bindE_snd)
  then show ?thesis using assms(3) by (rule play_card_inv)
next
  case (StartNextRound deck)
  from assms(3) have four: "length (players s) = 4" by (simp add: turn_inv_def)
  from assms(1) obtain b where "start_next_round deck s = Inr (b, s')"
    unfolding StartNextRound apply_call.simps by (blast dest: bindE_snd)
  then consider "s' = s" | "start_round deck s = Inr s'"
    by (auto simp: start_next_round_def bindE_def split: sum.splits if_splits)
  then show ?thesis
  proof cases
    case 1
    with assms(3) show ?thesis by simp
  next
    case 2
    moreover from assms(2) StartNextRound have "shuffled deck" by simp
    ultimately show ?thesis using four by (rule start_round_inv)
  qed
qed

lemma reachable_turn_inv: "reachable s \<Longrightarrow> turn_inv s"
proof (induction rule: reachable.induct)
  case (reach_start ps deck s)
  have "length (players (init_game ps)) = 4"
    using reach_start(1) by (simp add: init_game_def)
  with reach_start(3,2) show ?case by (rule start_round_inv)
next
  case (reach_call s c s')
  from reach_call(3,2,4) show ?case by (rule apply_call_inv)
qed

text \<open>
  What the code keeps of the turn.  In every state of a four-seat game reached by calls of
  \<open>start_round\<close>, \<open>submit_pass\<close>, \<open>play_card\<close> and \<open>start_next_round\<close> that return, the
  phase is one of \<open>passing\<close>, \<open>playing\<close>, \<open>round_end\<close> and \<open>game_over\<close>; \<open>current_turn\<close> is
  \<open>None\<close> exactly in the phase \<open>passing\<close>, so it is set in \<open>playing\<close> and stays set in
  every \<open>round_end\<close> and \<open>game_over\<close> state; and in the phase \<open>playing\<close> the trick has
  fewer than four cards.
\<close>

lemma current_turn_by_phase:
  assumes "reachable s"
  shows "phase s \<in> {''passing'', ''playing'', ''round_end'', ''game_over''} \<and>
    (current_turn s = None \<longleftrightarrow> phase s = ''passing'') \<and>
    (phase s = ''playing'' \<longrightarrow> length (trick s) < 4)"
  using reachable_turn_inv[OF assms] by (simp add: turn_inv_def)

lemma current_turn_by_phase_example:
  "reachable demo_start \<and> current_turn demo_start = None \<and> phase demo_start = ''passing'' \<and>
   reachable demo_end \<and> current_turn demo_end \<noteq> None \<and> phase demo_end \<noteq> ''passing''"
proof -
  have ok: "list_all call_ok (tl demo_round)"
    by (simp add: demo_round_def)
  have r: "reachable demo_end"
    by (rule reachable_run[OF reachable_demo_start ok demo_end_run])
  have "phase demo_start = ''passing''" "phase demo_end \<noteq> ''passing''"
    by (simp_all add: demo_start_def demo_end_def)
  with current_turn_by_phase[OF reachable_demo_start] current_turn_by_phase[OF r]
    reachable_demo_start r
  show ?thesis by simp
qed

subsection \<open>The pass exchange\<close>

lemma foldE_append:
  "foldE f (xs @ ys) a = bindE (foldE f xs a) (foldE f ys)"
  by (induction xs arbitrary: a) (auto split: sum.splits)

lemma remove_seat_cards:
  assumes "map_of hs q = Some h" and "distinct cs" and "set cs \<subseteq> set h"
  shows "foldE remove_card (map (Pair q) cs) hs = Inr (AList.update q (fold remove1 cs h) hs)"
  using assms
proof (induction cs arbitrary: h hs)
  case Nil
  then show ?case by (simp add: update_triv)
next
  case (Cons c cs)
  let ?hs = "AList.update q (remove1 c h) hs"
  from Cons.prems have step: "remove_card (q, c) hs = Inr ?hs"
    by (simp add: remove_card_def dict_get_def)
  have "map_of ?hs q = Some (remove1 c h)" by (simp add: update_conv')
  moreover from Cons.prems have "distinct cs" by simp
  moreover have "set cs \<subseteq> set (remove1 c h)"
  proof
    fix x assume x: "x \<in> set cs"
    with Cons.prems have "x \<noteq> c" "x \<in> set h" by auto
    then show "x \<in> set (remove1 c h)" by (simp add: in_set_remove1)
  qed
  ultimately have "foldE remove_card (map (Pair q) cs) ?hs =
      Inr (AList.update q (fold remove1 cs (remove1 c h)) ?hs)"
    by (rule Cons.IH)
  with step show ?case by simp
qed

lemma remove_passes_result:
  assumes "distinct (map fst pend)"
    and "\<forall>qc \<in> set pend. \<exists>h. map_of hs (fst qc) = Some h \<and> distinct (snd qc) \<and> set (snd qc) \<subseteq> set h"
  shows "\<exists>hs1. remove_passes pend hs = Inr hs1 \<and> map fst hs1 = map fst hs \<and>
    (\<forall>q. map_of hs1 q =
       (case map_of pend q of None \<Rightarrow> map_of hs q
        | Some cs \<Rightarrow> map_option (fold remove1 cs) (map_of hs q)))"
  using assms
proof (induction pend arbitrary: hs)
  case Nil
  then show ?case by (simp add: remove_passes_def)
next
  case (Cons qc pend)
  obtain q cs where qc: "qc = (q, cs)" by (cases qc)
  from Cons.prems(2) qc obtain h where h: "map_of hs q = Some h" "distinct cs" "set cs \<subseteq> set h"
    by auto
  let ?hs = "AList.update q (fold remove1 cs h) hs"
  have keys: "map fst ?hs = map fst hs"
    using h(1) by (simp add: update_keys) (metis domI dom_map_of_conv_image_fst image_set)
  have fresh: "map_of pend q = None"
    using Cons.prems(1) qc by (simp add: map_of_eq_None_iff)
  have others: "map_of ?hs p = map_of hs p" if "p \<noteq> q" for p
    using that by (simp add: update_conv')
  have "\<forall>qc \<in> set pend. \<exists>h. map_of ?hs (fst qc) = Some h \<and> distinct (snd qc) \<and> set (snd qc) \<subseteq> set h"
  proof
    fix x assume x: "x \<in> set pend"
    then have "fst x \<noteq> q" using Cons.prems(1) qc by force
    with others Cons.prems(2) x show "\<exists>h. map_of ?hs (fst x) = Some h \<and> distinct (snd x) \<and> set (snd x) \<subseteq> set h"
      by simp
  qed
  moreover from Cons.prems(1) have "distinct (map fst pend)" by simp
  ultimately obtain hs1 where
    hs1: "remove_passes pend ?hs = Inr hs1" "map fst hs1 = map fst ?hs"
      "\<forall>p. map_of hs1 p =
       (case map_of pend p of None \<Rightarrow> map_of ?hs p
        | Some cs \<Rightarrow> map_option (fold remove1 cs) (map_of ?hs p))"
    using Cons.IH[of ?hs] by blast
  have "remove_passes (qc # pend) hs = Inr hs1"
    using hs1(1) remove_seat_cards[OF h]
    by (simp add: remove_passes_def qc foldE_append)
  moreover have "map_of hs1 p =
       (case map_of (qc # pend) p of None \<Rightarrow> map_of hs p
        | Some cs \<Rightarrow> map_option (fold remove1 cs) (map_of hs p))" for p
  proof (cases "p = q")
    case True
    with hs1(3) fresh h(1) show ?thesis by (simp add: qc update_conv')
  next
    case False
    with hs1(3) others[OF False] show ?thesis by (simp add: qc split: option.split)
  qed
  ultimately show ?case using hs1(2) keys by simp
qed

lemma extend_passes_result:
  assumes "\<forall>qc \<in> set pend. \<exists>t. map_of mapping (fst qc) = Some t \<and> t \<in> fst ` set hs"
  shows "\<exists>hs2. foldE (extend_pass mapping) pend hs = Inr hs2 \<and> map fst hs2 = map fst hs \<and>
    (\<forall>t. map_of hs2 t =
       map_option (\<lambda>h. h @ concat (map snd (filter (\<lambda>qc. map_of mapping (fst qc) = Some t) pend)))
         (map_of hs t))"
  using assms
proof (induction pend arbitrary: hs)
  case Nil
  then show ?case by (simp add: option.map_ident)
next
  case (Cons qc pend)
  from Cons.prems obtain t0 where t0: "map_of mapping (fst qc) = Some t0" "t0 \<in> fst ` set hs"
    by auto
  then obtain h0 where h0: "map_of hs t0 = Some h0"
    by (metis domD dom_map_of_conv_image_fst)
  let ?hs = "AList.update t0 (h0 @ snd qc) hs"
  have step: "extend_pass mapping qc hs = Inr ?hs"
    by (simp add: extend_pass_def dict_get_def t0 h0)
  have keys: "map fst ?hs = map fst hs"
    using t0(2) by (simp add: update_keys)
  then have "fst ` set ?hs = fst ` set hs" by (metis list.set_map)
  with Cons.prems have "\<forall>qc \<in> set pend. \<exists>t. map_of mapping (fst qc) = Some t \<and> t \<in> fst ` set ?hs"
    by simp
  from Cons.IH[OF this] obtain hs2 where
    hs2: "foldE (extend_pass mapping) pend ?hs = Inr hs2" "map fst hs2 = map fst ?hs"
      "\<forall>t. map_of hs2 t =
       map_option (\<lambda>h. h @ concat (map snd (filter (\<lambda>qc. map_of mapping (fst qc) = Some t) pend)))
         (map_of ?hs t)"
    by blast
  have "map_of hs2 t =
       map_option (\<lambda>h. h @ concat (map snd (filter (\<lambda>qc. map_of mapping (fst qc) = Some t) (qc # pend))))
         (map_of hs t)" for t
  proof (cases "t = t0")
    case True
    with hs2(3) t0(1) h0 show ?thesis by (simp add: update_conv')
  next
    case False
    with hs2(3) t0(1) show ?thesis by (simp add: update_conv')
  qed
  with hs2(1,2) step keys show ?case by simp
qed

lemma list_index_total: "x \<in> set xs \<Longrightarrow> \<exists>i. list_index xs x = Inr i"
  by (induction xs) auto

lemma card_sort_key_total: "is_card c \<Longrightarrow> \<exists>k. card_sort_key c = Inr k"
proof -
  assume c: "is_card c"
  then obtain r s where rs: "c = [r, s]" "[s] \<in> set SUITS"
    using is_card_shape by blast
  from list_index_total[OF rs(2)] obtain i where "list_index SUITS [s] = Inr i" by blast
  moreover from rank_value_total[OF c] obtain v where "rank_value c = Inr v" by blast
  ultimately show ?thesis
    by (simp add: card_sort_key_def card_suit_def rs(1))
qed

lemma mapE_total: "\<forall>x \<in> set xs. \<exists>y. f x = Inr y \<Longrightarrow> \<exists>ys. mapE f xs = Inr ys"
  by (induction xs) auto

lemma sort_hand_total: "\<forall>c \<in> set h. is_card c \<Longrightarrow> sort_hand h = Inr (sorted_hand h)"
proof -
  assume "\<forall>c \<in> set h. is_card c"
  then have "\<forall>c \<in> set h. \<exists>k. card_sort_key c = Inr k"
    by (blast dest: card_sort_key_total)
  from mapE_total[OF this] obtain ks where "mapE card_sort_key h = Inr ks" by blast
  then have "\<exists>h'. sort_hand h = Inr h'" by (simp add: sort_hand_def)
  then show ?thesis by (auto simp: sorted_hand_def)
qed

lemma sorted_hand_mset: "\<forall>c \<in> set h. is_card c \<Longrightarrow> mset (sorted_hand h) = mset h"
  using sort_hand_total[of h] sort_hand_mset[of h "sorted_hand h"] by simp

lemma sort_hands_total:
  "\<forall>c \<in> set (all_cards hs). is_card c \<Longrightarrow>
   sort_hands hs = Inr (map (\<lambda>ph. (fst ph, sorted_hand (snd ph))) hs)"
proof (induction hs)
  case Nil
  then show ?case by (simp add: sort_hands_def)
next
  case (Cons ph hs)
  obtain p h where ph: "ph = (p, h)" by (cases ph)
  from Cons.prems have a: "\<forall>c \<in> set h. is_card c" and b: "\<forall>c \<in> set (all_cards hs). is_card c"
    by (auto simp: all_cards_def ph)
  from Cons.IH[OF b] sort_hand_total[OF a] show ?case
    by (simp add: sort_hands_def ph)
qed

lemma map_of_sorted:
  "map_of (map (\<lambda>ph. (fst ph, sorted_hand (snd ph))) hs) q = map_option sorted_hand (map_of hs q)"
  by (induction hs) auto

lemma pass_map_untouched:
  "k \<notin> set xs \<Longrightarrow>
   map_of (fold (\<lambda>(idx, pid) mapping. AList.update pid (f idx pid) mapping) (enumerate n xs) m) k =
   map_of m k"
  by (induction xs arbitrary: n m) (auto simp: update_conv')

lemma pass_map_lookup_aux:
  "distinct xs \<Longrightarrow> j < length xs \<Longrightarrow>
   map_of (fold (\<lambda>(idx, pid) mapping. AList.update pid (f idx pid) mapping) (enumerate n xs) m) (xs ! j) =
   Some (f (n + j) (xs ! j))"
proof (induction xs arbitrary: n m j)
  case Nil
  then show ?case by simp
next
  case (Cons x xs)
  show ?case
  proof (cases j)
    case 0
    with Cons.prems show ?thesis by (simp add: pass_map_untouched update_conv')
  next
    case (Suc j')
    with Cons.prems Cons.IH[of j' "Suc n" "AList.update x (f n x) m"] show ?thesis by simp
  qed
qed

lemma pass_map_lookup:
  assumes "distinct (map id_p ps)" and "i < length ps"
  shows "map_of (pass_map ps d) (map id_p ps ! i) =
    Some (pass_target (map id_p ps) d i (map id_p ps ! i))"
  using pass_map_lookup_aux[of "map id_p ps" i "pass_target (map id_p ps) d" 0 "[]"] assms
  by (simp add: pass_map_def Let_def)

lemma pass_target_table:
  assumes "i < length order"
  shows "pass_target order PASS_LEFT i p = order ! ((i + 1) mod length order)"
    and "pass_target order PASS_RIGHT i p = order ! ((i + length order - 1) mod length order)"
    and "pass_target order PASS_ACROSS i p = order ! ((i + 2) mod length order)"
    and "pass_target order PASS_HOLD i p = p"
proof -
  have "nat ((int i - 1) mod int (length order)) = (i + length order - 1) mod length order"
  proof -
    have "(int i - 1) mod int (length order) = (int i - 1 + int (length order)) mod int (length order)"
      by simp
    also have "int i - 1 + int (length order) = int (i + length order - 1)"
      using assms by simp
    finally show ?thesis by (simp add: nat_mod_as_int)
  qed
  then show "pass_target order PASS_RIGHT i p = order ! ((i + length order - 1) mod length order)"
    by (simp add: pass_target_def PASS_LEFT_def PASS_RIGHT_def)
qed (simp_all add: pass_target_def PASS_LEFT_def PASS_RIGHT_def PASS_ACROSS_def PASS_HOLD_def)

lemma shift_inj_le:
  assumes "i \<le> j" and "j < n" and "(i + k) mod n = (j + k) mod (n::nat)"
  shows "i = j"
proof -
  have le: "i + k \<le> j + k" using assms(1) by simp
  have "(j + k) mod n = (i + k) mod n" using assms(3) by simp
  then have "n dvd (j + k) - (i + k)"
    using mod_eq_dvd_iff_nat[OF le, of n] by blast
  moreover have "(j + k) - (i + k) = j - i" by simp
  ultimately have "n dvd j - i" by (simp only:)
  moreover have "j - i < n" using assms(2) by simp
  ultimately have "j - i = 0" by (meson dvd_imp_le not_less zero_less_iff_neq_zero)
  with assms(1) show ?thesis by simp
qed

lemma shift_inj:
  assumes "i < n" and "j < n" and "(i + k) mod n = (j + k) mod (n::nat)"
  shows "i = j"
proof (cases "i \<le> j")
  case True
  then show ?thesis using assms(2,3) by (rule shift_inj_le)
next
  case False
  then have "j \<le> i" by simp
  then have "j = i" using assms(1) assms(3)[symmetric] by (rule shift_inj_le)
  then show ?thesis by simp
qed

lemma receiver_unique:
  assumes "distinct (player_order s)" and "i < length (player_order s)"
  shows "\<exists>k < length (player_order s). receiver s i = player_order s ! k \<and>
    (\<forall>j < length (player_order s). receiver s j = player_order s ! k \<longrightarrow> j = i)"
proof -
  let ?o = "player_order s" and ?n = "length (player_order s)"
  have pos: "0 < ?n" using assms(2) by (cases "player_order s") simp_all
  define sh where "sh = (if pass_dir s = PASS_LEFT then 1
     else if pass_dir s = PASS_RIGHT then ?n - 1
     else if pass_dir s = PASS_ACROSS then 2 else ?n)"
  have recv: "receiver s j = ?o ! ((j + sh) mod ?n)" if "j < ?n" for j
    using that pass_target_table[OF that, of "?o ! j"]
    by (auto simp: receiver_def sh_def pass_target_def PASS_LEFT_def PASS_RIGHT_def PASS_ACROSS_def)
  have "j = i" if "j < ?n" "receiver s j = ?o ! ((i + sh) mod ?n)" for j
  proof -
    from that recv have "?o ! ((j + sh) mod ?n) = ?o ! ((i + sh) mod ?n)" by simp
    moreover have "(j + sh) mod ?n < ?n" "(i + sh) mod ?n < ?n" using pos by simp_all
    ultimately have "(j + sh) mod ?n = (i + sh) mod ?n"
      using assms(1) by (simp add: nth_eq_iff_index_eq)
    with that(1) assms(2) show ?thesis by (rule shift_inj)
  qed
  moreover have "(i + sh) mod ?n < ?n" using pos by simp
  ultimately show ?thesis using recv[OF assms(2)] by blast
qed

lemma filter_single:
  assumes "distinct (map fst xs)" and "(k, v) \<in> set xs"
    and "\<forall>x \<in> set xs. P x \<longleftrightarrow> fst x = k"
  shows "filter P xs = [(k, v)]"
  using assms
proof (induction xs)
  case Nil
  then show ?case by simp
next
  case (Cons x xs)
  show ?case
  proof (cases "fst x = k")
    case True
    with Cons.prems have x: "x = (k, v)"
      by (metis eq_key_imp_eq_value prod.collapse list.set_intros(1))
    from Cons.prems(1) True have "k \<notin> fst ` set xs" by simp
    then have "\<forall>y \<in> set xs. fst y \<noteq> k" by blast
    with Cons.prems(3) have "filter P xs = []" by (simp add: filter_empty_conv)
    with Cons.prems(3) x show ?thesis by simp
  next
    case False
    with Cons.prems have "(k, v) \<in> set xs" "distinct (map fst xs)" "\<forall>x \<in> set xs. P x \<longleftrightarrow> fst x = k"
      by auto
    from Cons.IH[OF this(2,1,3)] False Cons.prems(3) show ?thesis by simp
  qed
qed

lemma all_seats_pending:
  assumes "distinct (map fst pend)" and "set (map fst pend) \<subseteq> set order" and "distinct order"
    and "\<not> length pend < length order"
  shows "set (map fst pend) = set order"
proof -
  have "card (set order) = length order" using assms(3) by (rule distinct_card)
  moreover have "card (set (map fst pend)) = length pend"
    using distinct_card[OF assms(1)] by simp
  ultimately have "card (set order) \<le> card (set (map fst pend))" using assms(4) by simp
  with assms(2) show ?thesis by (simp add: card_seteq)
qed

lemma map_of_keys_Some:
  "k \<in> set (map fst xs) \<Longrightarrow> \<exists>v. map_of xs k = Some v"
  by (metis domD dom_map_of_conv_image_fst list.set_map)

lemma exchange_result:
  assumes ready: "exchange_ready pid cards s"
    and full: "\<not> length (AList.update pid cards (pending_pass s)) < length (players s)"
  shows "\<exists>hs3.
    bindE (remove_passes (AList.update pid cards (pending_pass s)) (hands s)) (\<lambda>hs1.
    bindE (foldE (extend_pass (pass_map (players s) (pass_dir s)))
             (AList.update pid cards (pending_pass s)) hs1) sort_hands) = Inr hs3 \<and>
    map fst hs3 = player_order s \<and>
    mset (all_cards hs3) = mset (all_cards (hands s)) \<and>
    (\<forall>i < length (player_order s).
       map_of hs3 (receiver s i) =
         Some (sorted_hand
           (fold remove1 (dict_get_default (AList.update pid cards (pending_pass s)) (receiver s i) [])
              (dict_get_default (hands s) (receiver s i) []) @
            dict_get_default (AList.update pid cards (pending_pass s)) (player_order s ! i) [])))"
proof -
  let ?pend = "AList.update pid cards (pending_pass s)"
  let ?o = "player_order s"
  let ?hs = "hands s"
  let ?m = "pass_map (players s) (pass_dir s)"
  from ready have dist_o: "distinct ?o" and keys: "map fst ?hs = ?o"
    and cards: "\<forall>c \<in> set (all_cards ?hs). is_card c"
    and dist_p0: "distinct (map fst (pending_pass s))"
    and entries: "\<forall>qc \<in> set ?pend. fst qc \<in> set ?o \<and> distinct (snd qc) \<and>
        set (snd qc) \<subseteq> set (dict_get_default ?hs (fst qc) [])"
    by (simp_all add: exchange_ready_def)
  have len: "length (players s) = length ?o" by (simp add: player_order_def)
  have dist_p: "distinct (map fst ?pend)" using dist_p0 by (rule distinct_update)
  have sub: "set (map fst ?pend) \<subseteq> set ?o" using entries by auto
  have all: "set (map fst ?pend) = set ?o"
    using dist_p sub dist_o full unfolding len by (rule all_seats_pending)
  have o_def: "?o = map id_p (players s)" by (simp add: player_order_def)

  \<comment> \<open>the removal loop\<close>
  have "\<forall>qc \<in> set ?pend. \<exists>h. map_of ?hs (fst qc) = Some h \<and> distinct (snd qc) \<and>
      set (snd qc) \<subseteq> set h"
  proof
    fix qc assume qc: "qc \<in> set ?pend"
    with entries have "fst qc \<in> set (map fst ?hs)" by (simp add: keys)
    from map_of_keys_Some[OF this] obtain h where h: "map_of ?hs (fst qc) = Some h" by blast
    then have "dict_get_default ?hs (fst qc) [] = h" by (simp add: dict_get_default_def)
    with entries qc have "distinct (snd qc)" "set (snd qc) \<subseteq> set h" by auto
    with h show "\<exists>h. map_of ?hs (fst qc) = Some h \<and> distinct (snd qc) \<and>
      set (snd qc) \<subseteq> set h"
      by blast
  qed
  from remove_passes_result[OF dist_p this] obtain hs1 where
    hs1: "remove_passes ?pend ?hs = Inr hs1" "map fst hs1 = map fst ?hs"
      "\<forall>q. map_of hs1 q =
       (case map_of ?pend q of None \<Rightarrow> map_of ?hs q
        | Some cs \<Rightarrow> map_option (fold remove1 cs) (map_of ?hs q))"
    by blast

  \<comment> \<open>the mapping of every seat\<close>
  have mapping: "map_of ?m (?o ! i) = Some (receiver s i)" if "i < length ?o" for i
    using pass_map_lookup[of "players s" i "pass_dir s"] that dist_o
    by (simp add: o_def receiver_def player_order_def)

  \<comment> \<open>the extension loop\<close>
  have "\<forall>qc \<in> set ?pend. \<exists>t. map_of ?m (fst qc) = Some t \<and> t \<in> fst ` set hs1"
  proof
    fix qc assume "qc \<in> set ?pend"
    with entries have "fst qc \<in> set ?o" by simp
    then obtain i where i: "i < length ?o" "fst qc = ?o ! i" by (metis in_set_conv_nth)
    from receiver_unique[OF dist_o i(1)] obtain k where "k < length ?o" "receiver s i = ?o ! k"
      by blast
    then have "receiver s i \<in> set (map fst hs1)" by (simp add: hs1(2) keys)
    with mapping[OF i(1)] i(2) show "\<exists>t. map_of ?m (fst qc) = Some t \<and> t \<in> fst ` set hs1"
      by simp
  qed
  from extend_passes_result[OF this] obtain hs2 where
    hs2: "foldE (extend_pass ?m) ?pend hs1 = Inr hs2" "map fst hs2 = map fst hs1"
      "\<forall>t. map_of hs2 t =
       map_option (\<lambda>h. h @ concat (map snd (filter (\<lambda>qc. map_of ?m (fst qc) = Some t) ?pend)))
         (map_of hs1 t)"
    by blast

  \<comment> \<open>the sort\<close>
  have m2: "mset (all_cards hs2) = mset (all_cards ?hs)"
    using remove_passes_cards[OF hs1(1)] extend_loop_cards[OF hs2(1)] by simp
  then have "set (all_cards hs2) = set (all_cards ?hs)" by (rule mset_eq_setD)
  with cards have "\<forall>c \<in> set (all_cards hs2). is_card c" by simp
  then have hs3: "sort_hands hs2 = Inr (map (\<lambda>ph. (fst ph, sorted_hand (snd ph))) hs2)"
    by (rule sort_hands_total)
  let ?hs3 = "map (\<lambda>ph. (fst ph, sorted_hand (snd ph))) hs2"
  have run: "bindE (remove_passes ?pend ?hs) (\<lambda>hs1.
      bindE (foldE (extend_pass ?m) ?pend hs1) sort_hands) = Inr ?hs3"
    by (simp add: hs1(1) hs2(1) hs3)
  have keys3: "map fst ?hs3 = ?o"
    using hs2(2) hs1(2) keys by (simp add: comp_def)
  have m3: "mset (all_cards ?hs3) = mset (all_cards ?hs)"
    using sort_hands_cards[OF hs3] m2 by simp

  \<comment> \<open>the hand of every receiver\<close>
  have "map_of ?hs3 (receiver s i) =
         Some (sorted_hand
           (fold remove1 (dict_get_default ?pend (receiver s i) [])
              (dict_get_default ?hs (receiver s i) []) @
            dict_get_default ?pend (?o ! i) []))" if i: "i < length ?o" for i
  proof -
    from receiver_unique[OF dist_o i] obtain k where
      k: "k < length ?o" "receiver s i = ?o ! k"
        "\<forall>j < length ?o. receiver s j = ?o ! k \<longrightarrow> j = i"
      by blast
    let ?r = "receiver s i"
    have r_seat: "?r \<in> set ?o" using k(1,2) by simp
    then have "?r \<in> set (map fst ?hs)" by (simp only: keys)
    from map_of_keys_Some[OF this] obtain hr where hr: "map_of ?hs ?r = Some hr" ..
    from r_seat have "?r \<in> set (map fst ?pend)" by (simp only: all)
    from map_of_keys_Some[OF this] obtain cr where cr: "map_of ?pend ?r = Some cr" ..
    have "?o ! i \<in> set ?o" using i by simp
    then have "?o ! i \<in> set (map fst ?pend)" by (simp only: all)
    from map_of_keys_Some[OF this] obtain ci where ci: "map_of ?pend (?o ! i) = Some ci" ..
    then have ci_in: "(?o ! i, ci) \<in> set ?pend" by (rule map_of_SomeD)
    have "\<forall>qc \<in> set ?pend. map_of ?m (fst qc) = Some ?r \<longleftrightarrow> fst qc = ?o ! i"
    proof
      fix qc assume "qc \<in> set ?pend"
      with entries have "fst qc \<in> set ?o" by simp
      then obtain j where j: "j < length ?o" "fst qc = ?o ! j" by (metis in_set_conv_nth)
      show "map_of ?m (fst qc) = Some ?r \<longleftrightarrow> fst qc = ?o ! i"
      proof
        assume "map_of ?m (fst qc) = Some ?r"
        with mapping[OF j(1)] j(2) have "receiver s j = ?o ! k" by (simp add: k(2))
        with k(3) j(1) have "j = i" by simp
        with j(2) show "fst qc = ?o ! i" by simp
      next
        assume "fst qc = ?o ! i"
        with mapping[OF i] show "map_of ?m (fst qc) = Some ?r" by simp
      qed
    qed
    from filter_single[OF dist_p ci_in this]
    have "concat (map snd (filter (\<lambda>qc. map_of ?m (fst qc) = Some ?r) ?pend)) = ci" by simp
    with hs2(3) have "map_of hs2 ?r = map_option (\<lambda>h. h @ ci) (map_of hs1 ?r)" by simp
    also have "map_of hs1 ?r = Some (fold remove1 cr hr)"
      using hs1(3) cr hr by simp
    finally have "map_of ?hs3 ?r = Some (sorted_hand (fold remove1 cr hr @ ci))"
      by (simp add: map_of_sorted)
    then show ?thesis by (simp add: dict_get_default_def cr hr ci)
  qed
  with run keys3 m3 show ?thesis by blast
qed

lemma find_two_clubs_player_Some:
  "find_two_clubs_player hs = Some q \<Longrightarrow> distinct (map fst hs) \<Longrightarrow>
   \<exists>h. map_of hs q = Some h \<and> ''2C'' \<in> set h"
proof (induction hs)
  case Nil
  then show ?case by simp
next
  case (Cons ph hs)
  obtain p h where ph: "ph = (p, h)" by (cases ph)
  show ?case
  proof (cases "''2C'' \<in> set h")
    case True
    with Cons.prems show ?thesis by (simp add: ph)
  next
    case False
    with Cons.prems have f: "find_two_clubs_player hs = Some q" and d: "distinct (map fst hs)"
      and p: "p \<notin> fst ` set hs"
      by (simp_all add: ph)
    from Cons.IH[OF f d] obtain h' where h': "map_of hs q = Some h'" "''2C'' \<in> set h'" by blast
    from h'(1) have "q \<in> fst ` set hs" by (metis domI dom_map_of_conv_image_fst)
    with p have "q \<noteq> p" by blast
    with h' show ?thesis by (simp add: ph)
  qed
qed

lemma map_of_update_same: "map_of (AList.update k v al) k = Some v"
  by (simp add: update_conv')

lemma submit_pass_stored:
  assumes "phase s = ''passing''" and "length cards = 3"
    and "set cards \<subseteq> set (dict_get_default (hands s) pid [])"
    and "length (AList.update pid cards (pending_pass s)) < length (players s)"
  shows "submit_pass pid cards s =
    Inr (True, s\<lparr>pending_pass := AList.update pid cards (pending_pass s)\<rparr>)"
  using assms by (auto simp: submit_pass_def Let_def)

lemma submit_pass_fired:
  assumes "phase s = ''passing''" and "length cards = 3"
    and "set cards \<subseteq> set (dict_get_default (hands s) pid [])"
    and "\<not> length (AList.update pid cards (pending_pass s)) < length (players s)"
    and "bindE (remove_passes (AList.update pid cards (pending_pass s)) (hands s)) (\<lambda>hs1.
         bindE (foldE (extend_pass (pass_map (players s) (pass_dir s)))
             (AList.update pid cards (pending_pass s)) hs1) sort_hands) = Inr hs3"
  shows "submit_pass pid cards s =
    Inr (True, s\<lparr>hands := hs3, pending_pass := [], phase := ''playing'',
                  current_turn := find_two_clubs_player hs3\<rparr>)"
proof -
  from assms(5) obtain hs1 hs2 where
    "remove_passes (AList.update pid cards (pending_pass s)) (hands s) = Inr hs1"
    "foldE (extend_pass (pass_map (players s) (pass_dir s)))
             (AList.update pid cards (pending_pass s)) hs1 = Inr hs2"
    "sort_hands hs2 = Inr hs3"
    by (auto simp: bindE_Inr)
  with assms(1-4) show ?thesis
    by (auto simp: submit_pass_def Let_def)
qed

lemma pending_full_iff:
  assumes "exchange_ready pid cards s"
  shows "length (AList.update pid cards (pending_pass s)) < length (players s) \<longleftrightarrow>
    (\<exists>q \<in> set (player_order s). map_of (AList.update pid cards (pending_pass s)) q = None)"
proof -
  let ?pend = "AList.update pid cards (pending_pass s)"
  let ?o = "player_order s"
  from assms have dist_o: "distinct ?o" and dist_p0: "distinct (map fst (pending_pass s))"
    and entries: "\<forall>qc \<in> set ?pend. fst qc \<in> set ?o"
    by (simp_all add: exchange_ready_def)
  have len: "length (players s) = length ?o" by (simp add: player_order_def)
  have dist_p: "distinct (map fst ?pend)" using dist_p0 by (rule distinct_update)
  have sub: "set (map fst ?pend) \<subseteq> set ?o" using entries by auto
  show ?thesis
  proof
    assume short: "length ?pend < length (players s)"
    show "\<exists>q \<in> set ?o. map_of ?pend q = None"
    proof (rule ccontr)
      assume "\<not> (\<exists>q \<in> set ?o. map_of ?pend q = None)"
      then have "set ?o \<subseteq> set (map fst ?pend)"
        by (auto simp: map_of_eq_None_iff)
      then have "card (set ?o) \<le> card (set (map fst ?pend))"
        by (simp add: card_mono)
      moreover have "card (set ?o) = length ?o" using dist_o by (rule distinct_card)
      moreover have "card (set (map fst ?pend)) = length ?pend"
        using distinct_card[OF dist_p] by simp
      ultimately show False using short len by simp
    qed
  next
    assume "\<exists>q \<in> set ?o. map_of ?pend q = None"
    then obtain q where q: "q \<in> set ?o" "map_of ?pend q = None" by blast
    show "length ?pend < length (players s)"
    proof (rule ccontr)
      assume "\<not> length ?pend < length (players s)"
      then have "\<not> length ?pend < length ?o" unfolding len .
      with dist_p sub dist_o have "set (map fst ?pend) = set ?o" by (rule all_seats_pending)
      with q(1) have "q \<in> set (map fst ?pend)" by simp
      from map_of_keys_Some[OF this] q(2) show False by simp
    qed
  qed
qed

lemma receiver_table:
  assumes "i < length (player_order s)"
  shows "receiver s i =
    (if pass_dir s = PASS_LEFT then player_order s ! ((i + 1) mod length (player_order s))
     else if pass_dir s = PASS_RIGHT
       then player_order s ! ((i + length (player_order s) - 1) mod length (player_order s))
     else if pass_dir s = PASS_ACROSS then player_order s ! ((i + 2) mod length (player_order s))
     else player_order s ! i)"
  using pass_target_table[OF assms, of "player_order s ! i"]
  by (auto simp: receiver_def pass_target_def PASS_LEFT_def PASS_RIGHT_def PASS_ACROSS_def)

lemma start_round_direction:
  assumes "start_round deck s = Inr s'"
  shows "pass_dir s' = round_index s mod 4 \<and> round_index s' = round_index s \<and>
    pending_pass s' = [] \<and>
    phase s' = (if round_index s mod 4 = PASS_HOLD then ''playing'' else ''passing'')"
  using assms
  by (auto simp: start_round_def Let_def bindE_def split: sum.splits if_splits)

lemma play_card_not_passing:
  assumes "play_card p c t = Inr (b, t')" and "phase t \<noteq> ''passing''"
  shows "phase t' \<noteq> ''passing''"
  using play_card_cases[OF assms(1)] assms(2) by auto

text \<open>
  C3.  The code does not do what the claim says when a pending pass repeats a card, which
  \<open>submit_pass\<close> accepts.  In the state \<open>three_passes\<close> of a game, three seats have a
  pending pass, the first seat's being three times the two of clubs.  The fourth seat's
  submission of three cards it holds is the one that gives every seat a pending pass; it
  does not exchange the cards and does not return: the removal loop raises \<open>ValueError\<close>.
\<close>

theorem fourth_pass_raises:
  "reachable three_passes \<and> phase three_passes = ''passing'' \<and>
   length (players three_passes) = 4 \<and>
   map fst (pending_pass three_passes) = [''n'', ''e'', ''s''] \<and>
   set [''5C'', ''9C'', ''KC''] \<subseteq> set (dict_get_default (hands three_passes) ''w'' []) \<and>
   submit_pass ''w'' [''5C'', ''9C'', ''KC''] three_passes = Inl ValueError"
proof -
  have run: "run [SubmitPass ''n'' [''2C'', ''2C'', ''2C''], SubmitPass ''e'' [''3C'', ''7C'', ''JC''],
        SubmitPass ''s'' [''4C'', ''8C'', ''QC'']] demo_start = Inr three_passes"
    by code_simp
  have r: "reachable three_passes"
    by (rule reachable_run[OF reachable_demo_start _ run]) simp
  have "phase three_passes = ''passing'' \<and>
   length (players three_passes) = 4 \<and>
   map fst (pending_pass three_passes) = [''n'', ''e'', ''s''] \<and>
   set [''5C'', ''9C'', ''KC''] \<subseteq> set (dict_get_default (hands three_passes) ''w'' []) \<and>
   submit_pass ''w'' [''5C'', ''9C'', ''KC''] three_passes = Inl ValueError"
    by code_simp
  with r show ?thesis by simp
qed

text \<open>
  The exchange when no pending pass repeats a card.  For an accepted submission
  (\<open>exchange_ready\<close>): the pending passes are fewer than
  the seats exactly when some seat has no pending pass; in that case \<open>submit_pass\<close>
  returns \<open>True\<close> and only stores or overwrites the seat's cards in \<open>pending_pass\<close>;
  otherwise it returns \<open>True\<close> with a state that differs in four fields: the phase is
  \<open>playing\<close>, \<open>pending_pass\<close> is empty, \<open>current_turn\<close> is the seat whose new hand holds
  the two of clubs, and the hand of the receiver of every seat is the sorted list of its
  old hand without its own pass, followed by the pass it receives, so that the cards of
  all hands are those of before.  The receiver of seat \<open>i\<close> is seat \<open>i + 1\<close> for direction
  0 (left), \<open>i - 1\<close> for 1 (right), \<open>i + 2\<close> for 2 (across), modulo the number of seats,
  and the seat itself otherwise.  Outside the phase \<open>passing\<close>, \<open>submit_pass\<close> returns
  \<open>False\<close> and changes nothing, and \<open>play_card\<close> never leads back to \<open>passing\<close>;
  \<open>start_round\<close> sets the direction to \<open>round_index mod 4\<close>, empties \<open>pending_pass\<close>, and
  goes to \<open>playing\<close> at once when the direction is 3 (hold), to \<open>passing\<close> otherwise.
\<close>

lemma pass_exchange:
  "(exchange_ready pid cards s \<longrightarrow>
     (let pend = AList.update pid cards (pending_pass s); order = player_order s in
      (length pend < length (players s) \<longleftrightarrow> (\<exists>q \<in> set order. map_of pend q = None)) \<and>
      (length pend < length (players s) \<longrightarrow>
         submit_pass pid cards s = Inr (True, s\<lparr>pending_pass := pend\<rparr>)) \<and>
      (\<not> length pend < length (players s) \<longrightarrow>
         (\<exists>hs'. submit_pass pid cards s =
                  Inr (True, s\<lparr>hands := hs', pending_pass := [], phase := ''playing'',
                                current_turn := find_two_clubs_player hs'\<rparr>) \<and>
            map fst hs' = order \<and>
            mset (all_cards hs') = mset (all_cards (hands s)) \<and>
            (\<forall>i < length order.
               map_of hs' (receiver s i) =
                 Some (sorted_hand
                   (fold remove1 (dict_get_default pend (receiver s i) [])
                      (dict_get_default (hands s) (receiver s i) []) @
                    dict_get_default pend (order ! i) []))) \<and>
            (''2C'' \<in> set (all_cards (hands s)) \<longrightarrow>
               (\<exists>q h. find_two_clubs_player hs' = Some q \<and> map_of hs' q = Some h \<and>
                  ''2C'' \<in> set h)))) \<and>
      (\<forall>i < length order.
         receiver s i =
           (if pass_dir s = PASS_LEFT then order ! ((i + 1) mod length order)
            else if pass_dir s = PASS_RIGHT then order ! ((i + length order - 1) mod length order)
            else if pass_dir s = PASS_ACROSS then order ! ((i + 2) mod length order)
            else order ! i)))) \<and>
   (phase t \<noteq> ''passing'' \<longrightarrow> submit_pass p cs t = Inr (False, t)) \<and>
   (phase t \<noteq> ''passing'' \<longrightarrow> play_card p c t = Inr (b, t') \<longrightarrow> phase t' \<noteq> ''passing'') \<and>
   (start_round deck t = Inr t' \<longrightarrow>
      pass_dir t' = round_index t mod 4 \<and> round_index t' = round_index t \<and>
      pending_pass t' = [] \<and>
      phase t' = (if round_index t mod 4 = PASS_HOLD then ''playing'' else ''passing''))"
proof -
  let ?pend = "AList.update pid cards (pending_pass s)"
  let ?o = "player_order s"
  have fire: "\<exists>hs'. submit_pass pid cards s =
                  Inr (True, s\<lparr>hands := hs', pending_pass := [], phase := ''playing'',
                                current_turn := find_two_clubs_player hs'\<rparr>) \<and>
            map fst hs' = ?o \<and>
            mset (all_cards hs') = mset (all_cards (hands s)) \<and>
            (\<forall>i < length ?o.
               map_of hs' (receiver s i) =
                 Some (sorted_hand
                   (fold remove1 (dict_get_default ?pend (receiver s i) [])
                      (dict_get_default (hands s) (receiver s i) []) @
                    dict_get_default ?pend (?o ! i) []))) \<and>
            (''2C'' \<in> set (all_cards (hands s)) \<longrightarrow>
               (\<exists>q h. find_two_clubs_player hs' = Some q \<and> map_of hs' q = Some h \<and>
                  ''2C'' \<in> set h))"
    if ready: "exchange_ready pid cards s" and full: "\<not> length ?pend < length (players s)"
  proof -
    from ready have passing: "phase s = ''passing''" and three: "length cards = 3"
      and dist_o: "distinct ?o"
      and entries: "\<forall>qc \<in> set ?pend. set (snd qc) \<subseteq> set (dict_get_default (hands s) (fst qc) [])"
      by (simp_all add: exchange_ready_def)
    have "(pid, cards) \<in> set ?pend"
      using map_of_update_same[of pid cards "pending_pass s"] by (rule map_of_SomeD)
    with entries have held: "set cards \<subseteq> set (dict_get_default (hands s) pid [])" by force
    from exchange_result[OF ready full] obtain hs3 where
      x: "bindE (remove_passes ?pend (hands s)) (\<lambda>hs1.
            bindE (foldE (extend_pass (pass_map (players s) (pass_dir s))) ?pend hs1) sort_hands) =
          Inr hs3"
        "map fst hs3 = ?o" "mset (all_cards hs3) = mset (all_cards (hands s))"
        "\<forall>i < length ?o.
           map_of hs3 (receiver s i) =
             Some (sorted_hand
               (fold remove1 (dict_get_default ?pend (receiver s i) [])
                  (dict_get_default (hands s) (receiver s i) []) @
                dict_get_default ?pend (?o ! i) []))"
      by blast
    have two: "\<exists>q h. find_two_clubs_player hs3 = Some q \<and> map_of hs3 q = Some h \<and> ''2C'' \<in> set h"
      if "''2C'' \<in> set (all_cards (hands s))"
    proof -
      from x(3) have "set (all_cards hs3) = set (all_cards (hands s))" by (rule mset_eq_setD)
      with that have "find_two_clubs_player hs3 \<noteq> None"
        by (simp add: find_two_clubs_player_None)
      then obtain q where q: "find_two_clubs_player hs3 = Some q" by blast
      have "distinct (map fst hs3)" using dist_o by (simp only: x(2))
      from find_two_clubs_player_Some[OF q this] q show ?thesis by blast
    qed
    from submit_pass_fired[OF passing three held full x(1)] x(2,3,4) two
    show ?thesis by blast
  qed
  have store: "submit_pass pid cards s = Inr (True, s\<lparr>pending_pass := ?pend\<rparr>)"
    if ready: "exchange_ready pid cards s" and short: "length ?pend < length (players s)"
  proof -
    from ready have passing: "phase s = ''passing''" and three: "length cards = 3"
      and entries: "\<forall>qc \<in> set ?pend. set (snd qc) \<subseteq> set (dict_get_default (hands s) (fst qc) [])"
      by (simp_all add: exchange_ready_def)
    have "(pid, cards) \<in> set ?pend"
      using map_of_update_same[of pid cards "pending_pass s"] by (rule map_of_SomeD)
    with entries have held: "set cards \<subseteq> set (dict_get_default (hands s) pid [])" by force
    from passing three held short show ?thesis by (rule submit_pass_stored)
  qed
  have part1: "exchange_ready pid cards s \<longrightarrow>
     (let pend = ?pend; order = ?o in
      (length pend < length (players s) \<longleftrightarrow> (\<exists>q \<in> set order. map_of pend q = None)) \<and>
      (length pend < length (players s) \<longrightarrow>
         submit_pass pid cards s = Inr (True, s\<lparr>pending_pass := pend\<rparr>)) \<and>
      (\<not> length pend < length (players s) \<longrightarrow>
         (\<exists>hs'. submit_pass pid cards s =
                  Inr (True, s\<lparr>hands := hs', pending_pass := [], phase := ''playing'',
                                current_turn := find_two_clubs_player hs'\<rparr>) \<and>
            map fst hs' = order \<and>
            mset (all_cards hs') = mset (all_cards (hands s)) \<and>
            (\<forall>i < length order.
               map_of hs' (receiver s i) =
                 Some (sorted_hand
                   (fold remove1 (dict_get_default pend (receiver s i) [])
                      (dict_get_default (hands s) (receiver s i) []) @
                    dict_get_default pend (order ! i) []))) \<and>
            (''2C'' \<in> set (all_cards (hands s)) \<longrightarrow>
               (\<exists>q h. find_two_clubs_player hs' = Some q \<and> map_of hs' q = Some h \<and>
                  ''2C'' \<in> set h)))) \<and>
      (\<forall>i < length order.
         receiver s i =
           (if pass_dir s = PASS_LEFT then order ! ((i + 1) mod length order)
            else if pass_dir s = PASS_RIGHT then order ! ((i + length order - 1) mod length order)
            else if pass_dir s = PASS_ACROSS then order ! ((i + 2) mod length order)
            else order ! i)))"
    unfolding Let_def
    using fire store pending_full_iff[of pid cards s] receiver_table[of _ s]
    by (intro impI conjI allI) blast+
  have part2: "phase t \<noteq> ''passing'' \<longrightarrow> submit_pass p cs t = Inr (False, t)"
    by (simp add: submit_pass_rejected)
  have part3: "phase t \<noteq> ''passing'' \<longrightarrow> play_card p c t = Inr (b, t') \<longrightarrow> phase t' \<noteq> ''passing''"
    using play_card_not_passing by blast
  have part4: "start_round deck t = Inr t' \<longrightarrow>
      pass_dir t' = round_index t mod 4 \<and> round_index t' = round_index t \<and>
      pending_pass t' = [] \<and>
      phase t' = (if round_index t mod 4 = PASS_HOLD then ''playing'' else ''passing'')"
    using start_round_direction by blast
  from part1 part2 part3 part4 show ?thesis by (intro conjI)
qed

lemma pass_exchange_example:
  "exchange_ready ''n'' [''2C'', ''6C'', ''TC''] demo_start \<and>
   submit_pass ''n'' [''2C'', ''6C'', ''TC''] demo_start =
     Inr (True, demo_start\<lparr>pending_pass := [(''n'', [''2C'', ''6C'', ''TC''])]\<rparr>) \<and>
   exchange_ready ''w'' [''5C'', ''9C'', ''KC''] (demo_state 4) \<and>
   pending_pass (demo_state 4) =
     [(''n'', [''2C'', ''6C'', ''TC'']), (''e'', [''3C'', ''7C'', ''JC'']),
      (''s'', [''4C'', ''8C'', ''QC''])] \<and>
   (\<exists>hs'. submit_pass ''w'' [''5C'', ''9C'', ''KC''] (demo_state 4) =
       Inr (True, (demo_state 4)\<lparr>hands := hs', pending_pass := [], phase := ''playing'',
                                  current_turn := find_two_clubs_player hs'\<rparr>) \<and>
      map_of hs' ''n'' =
        Some [''5C'', ''9C'', ''KC'', ''AC'', ''5D'', ''9D'', ''KD'', ''4S'', ''8S'', ''QS'',
              ''3H'', ''7H'', ''JH''] \<and>
      map_of hs' ''e'' =
        Some [''2C'', ''6C'', ''TC'', ''2D'', ''6D'', ''TD'', ''AD'', ''5S'', ''9S'', ''KS'',
              ''4H'', ''8H'', ''QH''] \<and>
      find_two_clubs_player hs' = Some ''e'') \<and>
   submit_pass ''n'' [''5C'', ''9C'', ''KC''] (demo_state 5) = Inr (False, demo_state 5) \<and>
   (\<exists>t'. start_round make_deck (demo_end\<lparr>round_index := 3\<rparr>) = Inr t' \<and>
      pass_dir t' = PASS_HOLD \<and> phase t' = ''playing'')"
proof -
  let ?N = "[''2C'', ''6C'', ''TC'']" and ?W = "[''5C'', ''9C'', ''KC'']"
  have ready1: "exchange_ready ''n'' ?N demo_start" by code_simp
  have short: "length (AList.update ''n'' ?N (pending_pass demo_start)) < length (players demo_start)"
    by code_simp
  have upd: "AList.update ''n'' ?N (pending_pass demo_start) = [(''n'', ?N)]" by code_simp
  have stored: "submit_pass ''n'' ?N demo_start =
      Inr (True, demo_start\<lparr>pending_pass := [(''n'', ?N)]\<rparr>)"
    using pass_exchange[where pid = "''n''" and cards = ?N and s = demo_start] ready1 short upd
    by (simp add: Let_def)
  have ready4: "exchange_ready ''w'' ?W (demo_state 4)" by code_simp
  have pend4: "pending_pass (demo_state 4) =
     [(''n'', [''2C'', ''6C'', ''TC'']), (''e'', [''3C'', ''7C'', ''JC'']),
      (''s'', [''4C'', ''8C'', ''QC''])]" by code_simp
  have full: "\<not> length (AList.update ''w'' ?W (pending_pass (demo_state 4)))
      < length (players (demo_state 4))"
    by code_simp
  have run4: "submit_pass ''w'' ?W (demo_state 4) =
      Inr (True, (demo_state 4)\<lparr>hands := hands (demo_state 5), pending_pass := [],
        phase := ''playing'', current_turn := find_two_clubs_player (hands (demo_state 5))\<rparr>)"
    by code_simp
  have h5: "map_of (hands (demo_state 5)) ''n'' =
        Some [''5C'', ''9C'', ''KC'', ''AC'', ''5D'', ''9D'', ''KD'', ''4S'', ''8S'', ''QS'',
              ''3H'', ''7H'', ''JH'']"
      "map_of (hands (demo_state 5)) ''e'' =
        Some [''2C'', ''6C'', ''TC'', ''2D'', ''6D'', ''TD'', ''AD'', ''5S'', ''9S'', ''KS'',
              ''4H'', ''8H'', ''QH'']"
      "find_two_clubs_player (hands (demo_state 5)) = Some ''e''"
    by code_simp+
  from pass_exchange[where pid = "''w''" and cards = ?W and s = "demo_state 4"] ready4 full
  obtain hs' where
    e: "submit_pass ''w'' ?W (demo_state 4) =
       Inr (True, (demo_state 4)\<lparr>hands := hs', pending_pass := [], phase := ''playing'',
                                  current_turn := find_two_clubs_player hs'\<rparr>)"
    and r: "\<forall>i < length (player_order (demo_state 4)).
       map_of hs' (receiver (demo_state 4) i) =
         Some (sorted_hand
           (fold remove1
              (dict_get_default (AList.update ''w'' ?W (pending_pass (demo_state 4)))
                 (receiver (demo_state 4) i) [])
              (dict_get_default (hands (demo_state 4)) (receiver (demo_state 4) i) []) @
            dict_get_default (AList.update ''w'' ?W (pending_pass (demo_state 4)))
              (player_order (demo_state 4) ! i) []))"
    unfolding Let_def by blast
  have seats: "(3::nat) < length (player_order (demo_state 4))"
    "(0::nat) < length (player_order (demo_state 4))" by code_simp+
  have recv: "receiver (demo_state 4) 3 = ''n''" "receiver (demo_state 4) 0 = ''e''" by code_simp+
  have merged:
    "sorted_hand
       (fold remove1
          (dict_get_default (AList.update ''w'' ?W (pending_pass (demo_state 4))) ''n'' [])
          (dict_get_default (hands (demo_state 4)) ''n'' []) @
        dict_get_default (AList.update ''w'' ?W (pending_pass (demo_state 4)))
          (player_order (demo_state 4) ! 3) []) =
     [''5C'', ''9C'', ''KC'', ''AC'', ''5D'', ''9D'', ''KD'', ''4S'', ''8S'', ''QS'',
      ''3H'', ''7H'', ''JH'']"
    "sorted_hand
       (fold remove1
          (dict_get_default (AList.update ''w'' ?W (pending_pass (demo_state 4))) ''e'' [])
          (dict_get_default (hands (demo_state 4)) ''e'' []) @
        dict_get_default (AList.update ''w'' ?W (pending_pass (demo_state 4)))
          (player_order (demo_state 4) ! 0) []) =
     [''2C'', ''6C'', ''TC'', ''2D'', ''6D'', ''TD'', ''AD'', ''5S'', ''9S'', ''KS'',
      ''4H'', ''8H'', ''QH'']"
    by code_simp+
  from r seats(1) have "map_of hs' (receiver (demo_state 4) 3) =
         Some (sorted_hand
           (fold remove1
              (dict_get_default (AList.update ''w'' ?W (pending_pass (demo_state 4)))
                 (receiver (demo_state 4) 3) [])
              (dict_get_default (hands (demo_state 4)) (receiver (demo_state 4) 3) []) @
            dict_get_default (AList.update ''w'' ?W (pending_pass (demo_state 4)))
              (player_order (demo_state 4) ! 3) []))"
    by blast
  then have to_n: "map_of hs' ''n'' =
        Some [''5C'', ''9C'', ''KC'', ''AC'', ''5D'', ''9D'', ''KD'', ''4S'', ''8S'', ''QS'',
              ''3H'', ''7H'', ''JH'']"
    unfolding recv merged .
  from r seats(2) have "map_of hs' (receiver (demo_state 4) 0) =
         Some (sorted_hand
           (fold remove1
              (dict_get_default (AList.update ''w'' ?W (pending_pass (demo_state 4)))
                 (receiver (demo_state 4) 0) [])
              (dict_get_default (hands (demo_state 4)) (receiver (demo_state 4) 0) []) @
            dict_get_default (AList.update ''w'' ?W (pending_pass (demo_state 4)))
              (player_order (demo_state 4) ! 0) []))"
    by blast
  then have to_e: "map_of hs' ''e'' =
        Some [''2C'', ''6C'', ''TC'', ''2D'', ''6D'', ''TD'', ''AD'', ''5S'', ''9S'', ''KS'',
              ''4H'', ''8H'', ''QH'']"
    unfolding recv merged .
  from e run4 have "(demo_state 4)\<lparr>hands := hs', pending_pass := [], phase := ''playing'',
        current_turn := find_two_clubs_player hs'\<rparr> =
      (demo_state 4)\<lparr>hands := hands (demo_state 5), pending_pass := [],
        phase := ''playing'', current_turn := find_two_clubs_player (hands (demo_state 5))\<rparr>"
    by simp
  then have "current_turn ((demo_state 4)\<lparr>hands := hs', pending_pass := [], phase := ''playing'',
        current_turn := find_two_clubs_player hs'\<rparr>) =
      current_turn ((demo_state 4)\<lparr>hands := hands (demo_state 5), pending_pass := [],
        phase := ''playing'', current_turn := find_two_clubs_player (hands (demo_state 5))\<rparr>)"
    by (rule arg_cong)
  then have turn: "find_two_clubs_player hs' = Some ''e''"
    using h5(3) by simp
  have fired: "\<exists>hs'. submit_pass ''w'' ?W (demo_state 4) =
       Inr (True, (demo_state 4)\<lparr>hands := hs', pending_pass := [], phase := ''playing'',
                                  current_turn := find_two_clubs_player hs'\<rparr>) \<and>
      map_of hs' ''n'' =
        Some [''5C'', ''9C'', ''KC'', ''AC'', ''5D'', ''9D'', ''KD'', ''4S'', ''8S'', ''QS'',
              ''3H'', ''7H'', ''JH''] \<and>
      map_of hs' ''e'' =
        Some [''2C'', ''6C'', ''TC'', ''2D'', ''6D'', ''TD'', ''AD'', ''5S'', ''9S'', ''KS'',
              ''4H'', ''8H'', ''QH''] \<and>
      find_two_clubs_player hs' = Some ''e''"
    using e to_n to_e turn by blast
  have playing5: "phase (demo_state 5) \<noteq> ''passing''" by code_simp
  have after: "submit_pass ''n'' ?W (demo_state 5) = Inr (False, demo_state 5)"
    using pass_exchange[where t = "demo_state 5" and p = "''n''" and cs = ?W] playing5 by simp
  have "\<not> isl (start_round make_deck (demo_end\<lparr>round_index := 3\<rparr>))"
    by code_simp
  then obtain t' where t': "start_round make_deck (demo_end\<lparr>round_index := 3\<rparr>) = Inr t'"
    by (cases "start_round make_deck (demo_end\<lparr>round_index := 3\<rparr>)") simp_all
  have "round_index (demo_end\<lparr>round_index := 3\<rparr>) mod 4 = PASS_HOLD"
    by (simp add: PASS_HOLD_def)
  with pass_exchange[where t = "demo_end\<lparr>round_index := 3\<rparr>" and deck = make_deck and t' = t'] t'
  have hold: "\<exists>t'. start_round make_deck (demo_end\<lparr>round_index := 3\<rparr>) = Inr t' \<and>
      pass_dir t' = PASS_HOLD \<and> phase t' = ''playing''"
    by simp
  from ready1 stored ready4 pend4 fired after hold show ?thesis by (intro conjI)
qed

subsection \<open>The hypotheses hold in the states of a game\<close>

text \<open>\<open>scoring_ok\<close> holds in every state of a game whose seats have non-empty
  identifiers, and \<open>exchange_ready\<close> for every accepted submission in a state of a game
  whose seats are distinct, as long as no pending pass repeats a card.\<close>

lemma dict_from_players_keys_set_aux:
  "fst ` set (fold (\<lambda>p d. AList.update (id_p p) v d) ps d) = fst ` set d \<union> id_p ` set ps"
  by (induction ps arbitrary: d) (auto simp: dom_update)

lemma dict_from_players_keys_set: "fst ` set (dict_from_players ps v) = id_p ` set ps"
  by (simp add: dict_from_players_def dict_from_players_keys_set_aux)

lemma dict_from_players_distinct_aux:
  "distinct (map fst d) \<Longrightarrow> distinct (map fst (fold (\<lambda>p d. AList.update (id_p p) v d) ps d))"
  by (induction ps arbitrary: d) (auto simp: distinct_update)

lemma dict_from_players_distinct: "distinct (map fst (dict_from_players ps v))"
  by (simp add: dict_from_players_def dict_from_players_distinct_aux)

lemma add_points_keys:
  "foldE add_points taken sc = Inr sc' \<Longrightarrow> map fst sc' = map fst sc"
proof (induction taken arbitrary: sc)
  case Nil
  then show ?case by simp
next
  case (Cons kv taken)
  from Cons.prems obtain sc1 where
    a: "add_points kv sc = Inr sc1" and b: "foldE add_points taken sc1 = Inr sc'"
    by (rule foldE_ConsE)
  from a obtain v where v: "map_of sc (fst kv) = Some v"
    "sc1 = AList.update (fst kv) (v + snd kv) sc"
    by (auto simp: add_points_def bindE_Inr dict_get_Inr)
  from v(1) have "fst kv \<in> set (map fst sc)"
    by (metis domI dom_map_of_conv_image_fst list.set_map)
  then have "map fst sc1 = map fst sc" by (simp add: v(2) update_keys)
  with Cons.IH[OF b] show ?case by simp
qed

lemma finish_round_keys:
  assumes "finish_round s = Inr s'"
  shows "map fst (scores s') = map fst (scores s) \<and>
    taken_points_round s' = taken_points_round s \<and> players s' = players s"
proof -
  from assms obtain sc where
    sc: "(case find_moon_shooter (taken_points_round s) of
          Some ms \<Rightarrow>
            if ms \<noteq> [] then
              Inr (map (\<lambda>(pid, v). if pid = ms then (pid, v) else (pid, v + 26)) (scores s))
            else foldE add_points (taken_points_round s) (scores s)
        | None \<Rightarrow> foldE add_points (taken_points_round s) (scores s)) = Inr sc"
    and s': "scores s' = sc \<and> taken_points_round s' = taken_points_round s \<and> players s' = players s"
    unfolding finish_round_unfold
    by (auto simp: bindE_def split: sum.splits if_splits)
  from sc have "map fst sc = map fst (scores s)"
    by (auto simp: moon_keys add_points_keys split: option.splits if_splits)
  with s' show ?thesis by simp
qed

lemma seats_inv_finish_round:
  "finish_round s = Inr s' \<Longrightarrow> seats_inv s \<Longrightarrow> seats_inv s'"
  using finish_round_keys[of s s'] unfolding seats_inv_def
  by (metis list.set_map)

lemma seats_inv_take_trick:
  assumes "take_trick s3 = Inr (b, s')" and "seats_inv s3"
  shows "seats_inv s'"
proof -
  from assms(1) obtain winner pts old where
    old: "map_of (taken_points_round s3) winner = Some old"
    and s': "s' = s3\<lparr>taken_points_round :=
                      AList.update winner (old + sum_list pts) (taken_points_round s3),
                    last_trick := trick s3, trick := [],
                    current_turn := Some winner, trick_index := trick_index s3 + 1\<rparr> \<or>
       finish_round (s3\<lparr>taken_points_round :=
                      AList.update winner (old + sum_list pts) (taken_points_round s3),
                    last_trick := trick s3, trick := [],
                    current_turn := Some winner\<rparr>) = Inr s'"
    by (auto simp: take_trick_def Let_def bindE_def dict_get_def
        split: sum.splits if_splits option.splits)
  let ?t = "AList.update winner (old + sum_list pts) (taken_points_round s3)"
  from old have "winner \<in> set (map fst (taken_points_round s3))"
    by (metis domI dom_map_of_conv_image_fst list.set_map)
  then have keys: "map fst ?t = map fst (taken_points_round s3)"
    by (simp add: update_keys)
  then have "fst ` set ?t = fst ` set (taken_points_round s3)" by (metis list.set_map)
  with keys assms(2) have inv4: "seats_inv (s3\<lparr>taken_points_round := ?t,
      last_trick := trick s3, trick := [], current_turn := Some winner\<rparr>)"
    by (simp add: seats_inv_def)
  from s' show ?thesis
  proof
    assume "s' = s3\<lparr>taken_points_round := ?t, last_trick := trick s3, trick := [],
                    current_turn := Some winner, trick_index := trick_index s3 + 1\<rparr>"
    with inv4 show ?thesis by (simp add: seats_inv_def)
  next
    assume "finish_round (s3\<lparr>taken_points_round := ?t, last_trick := trick s3, trick := [],
                    current_turn := Some winner\<rparr>) = Inr s'"
    then show ?thesis using inv4 by (rule seats_inv_finish_round)
  qed
qed

lemma seats_inv_frame:
  "taken_points_round s' = taken_points_round s \<Longrightarrow> scores s' = scores s \<Longrightarrow>
   players s' = players s \<Longrightarrow> seats_inv s \<Longrightarrow> seats_inv s'"
  by (simp add: seats_inv_def)

lemma play_accepted_steps:
  assumes "play_accepted pid c s = Inr (b, s')"
  obtains s3 where "taken_points_round s3 = taken_points_round s" and "scores s3 = scores s"
    and "players s3 = players s"
    and "(\<exists>np. s' = s3\<lparr>current_turn := Some np\<rparr>) \<or> take_trick s3 = Inr (b, s')"
proof -
  define s2 where "s2 = (if trick s = [] then s\<lparr>last_trick := []\<rparr> else s)
      \<lparr>hands := AList.update pid (remove1 c (dict_get_default (hands s) pid []))
                 (hands (if trick s = [] then s\<lparr>last_trick := []\<rparr> else s)),
       trick := trick (if trick s = [] then s\<lparr>last_trick := []\<rparr> else s) @ [(pid, c)]\<rparr>"
  from assms obtain suit where suit: "card_suit c = Inr suit"
    and run: "(let s3 = (if suit = ''H'' then s2\<lparr>hearts_broken := True\<rparr> else s2) in
        if length (trick s3) < length (players s3) then
          bindE (next_player pid s3) (\<lambda>np. Inr (True, s3\<lparr>current_turn := Some np\<rparr>))
        else take_trick s3) = Inr (b, s')"
    unfolding play_accepted_def Let_def s2_def by (auto simp: bindE_Inr)
  define s3 where "s3 = (if suit = ''H'' then s2\<lparr>hearts_broken := True\<rparr> else s2)"
  have frame: "taken_points_round s3 = taken_points_round s" "scores s3 = scores s"
    "players s3 = players s"
    by (simp_all add: s3_def s2_def)
  from run have "(\<exists>np. s' = s3\<lparr>current_turn := Some np\<rparr>) \<or> take_trick s3 = Inr (b, s')"
    unfolding Let_def s3_def[symmetric]
    by (auto simp: bindE_def split: if_splits sum.splits)
  with frame show ?thesis by (rule that)
qed

lemma seats_inv_play_accepted:
  assumes "play_accepted pid c s = Inr (b, s')" and "seats_inv s"
  shows "seats_inv s'"
proof -
  from assms(1) obtain s3 where
    s3: "taken_points_round s3 = taken_points_round s" "scores s3 = scores s"
        "players s3 = players s"
    and s': "(\<exists>np. s' = s3\<lparr>current_turn := Some np\<rparr>) \<or> take_trick s3 = Inr (b, s')"
    by (rule play_accepted_steps)
  from s3 assms(2) have inv3: "seats_inv s3" by (rule seats_inv_frame)
  from s' show ?thesis
  proof
    assume "\<exists>np. s' = s3\<lparr>current_turn := Some np\<rparr>"
    then have "taken_points_round s' = taken_points_round s3" "scores s' = scores s3"
      "players s' = players s3"
      by auto
    then show ?thesis using inv3 by (rule seats_inv_frame)
  next
    assume "take_trick s3 = Inr (b, s')"
    then show ?thesis using inv3 by (rule seats_inv_take_trick)
  qed
qed

lemma seats_inv_play_card:
  assumes "play_card pid c s = Inr (b, s')" and "seats_inv s"
  shows "seats_inv s'"
proof (cases "play_card pid c s = Inr (False, s)")
  case True
  with assms show ?thesis by simp
next
  case False
  with assms(1) have "play_accepted pid c s = Inr (b, s')"
    unfolding play_card_unfold by (auto simp: bindE_def split: if_splits sum.splits)
  then show ?thesis using assms(2) by (rule seats_inv_play_accepted)
qed

lemma seats_inv_submit_pass:
  assumes "submit_pass pid cards s = Inr (b, s')" and "seats_inv s"
  shows "seats_inv s'"
proof -
  from submit_pass_cases[OF assms(1)] have
    "taken_points_round s' = taken_points_round s \<and> scores s' = scores s \<and>
     players s' = players s"
    by auto
  with assms(2) show ?thesis by (simp add: seats_inv_def)
qed

lemma seats_inv_start_round:
  assumes "start_round deck s = Inr s'" and "fst ` set (scores s) = id_p ` set (players s)"
  shows "seats_inv s'"
proof -
  from assms(1) have "taken_points_round s' = dict_from_players (players s) 0"
    "scores s' = scores s" "players s' = players s"
    by (auto simp: start_round_def Let_def bindE_def split: sum.splits if_splits)
  with assms(2) show ?thesis
    by (simp add: seats_inv_def dict_from_players_distinct dict_from_players_keys_set)
qed

lemma seats_inv_apply_call:
  assumes "apply_call cl s = Inr s'" and "seats_inv s"
  shows "seats_inv s'"
proof (cases cl)
  case (StartRound deck)
  from assms(2) have k: "fst ` set (scores s) = id_p ` set (players s)" by (simp add: seats_inv_def)
  from assms(1) StartRound have "start_round deck s = Inr s'" by simp
  then show ?thesis using k by (rule seats_inv_start_round)
next
  case (SubmitPass pid cards)
  from assms(1) obtain b where "submit_pass pid cards s = Inr (b, s')"
    unfolding SubmitPass apply_call.simps by (blast dest: bindE_snd)
  then show ?thesis using assms(2) by (rule seats_inv_submit_pass)
next
  case (PlayCard pid c)
  from assms(1) obtain b where "play_card pid c s = Inr (b, s')"
    unfolding PlayCard apply_call.simps by (blast dest: bindE_snd)
  then show ?thesis using assms(2) by (rule seats_inv_play_card)
next
  case (StartNextRound deck)
  from assms(2) have k: "fst ` set (scores s) = id_p ` set (players s)" by (simp add: seats_inv_def)
  from assms(1) obtain b where "start_next_round deck s = Inr (b, s')"
    unfolding StartNextRound apply_call.simps by (blast dest: bindE_snd)
  then consider "s' = s" | "start_round deck s = Inr s'"
    by (auto simp: start_next_round_def bindE_def split: sum.splits if_splits)
  then show ?thesis
  proof cases
    case 1
    with assms(2) show ?thesis by simp
  next
    case 2
    then show ?thesis using k by (rule seats_inv_start_round)
  qed
qed

lemma reachable_seats_inv: "reachable s \<Longrightarrow> seats_inv s"
proof (induction rule: reachable.induct)
  case (reach_start ps deck s)
  have "fst ` set (scores (init_game ps)) = id_p ` set (players (init_game ps))"
    by (simp add: init_game_def dict_from_players_keys_set)
  with reach_start(3) show ?case by (rule seats_inv_start_round)
next
  case (reach_call s c s')
  from reach_call(3,4) show ?case by (rule seats_inv_apply_call)
qed

lemma apply_call_players: "apply_call cl s = Inr s' \<Longrightarrow> players s' = players s"
proof (cases cl)
  case (StartRound deck)
  assume "apply_call cl s = Inr s'"
  with StartRound show ?thesis
    by (auto simp: start_round_def Let_def bindE_def split: sum.splits if_splits)
next
  case (SubmitPass pid cards)
  assume "apply_call cl s = Inr s'"
  then obtain b where "submit_pass pid cards s = Inr (b, s')"
    unfolding SubmitPass apply_call.simps by (blast dest: bindE_snd)
  from submit_pass_cases[OF this] show ?thesis by auto
next
  case (PlayCard pid c)
  assume "apply_call cl s = Inr s'"
  then obtain b where "play_card pid c s = Inr (b, s')"
    unfolding PlayCard apply_call.simps by (blast dest: bindE_snd)
  from play_card_cases[OF this] show ?thesis by auto
next
  case (StartNextRound deck)
  assume "apply_call cl s = Inr s'"
  then obtain b where "start_next_round deck s = Inr (b, s')"
    unfolding StartNextRound apply_call.simps by (blast dest: bindE_snd)
  then show ?thesis
    by (auto simp: start_next_round_def start_round_def Let_def bindE_def
        split: sum.splits if_splits)
qed

lemma reachable_scoring_ok:
  assumes "reachable s" and "[] \<notin> set (player_order s)"
  shows "scoring_ok s"
  using reachable_seats_inv[OF assms(1)] assms(2)
  by (simp add: seats_inv_def scoring_ok_def player_order_def)

lemma update_keys_present:
  "map_of al k = Some v \<Longrightarrow> map fst (AList.update k v' al) = map fst al"
proof -
  assume "map_of al k = Some v"
  then have "k \<in> set (map fst al)"
    by (metis domI dom_map_of_conv_image_fst list.set_map)
  then show ?thesis by (simp add: update_keys)
qed

lemma foldE_keys:
  assumes "\<And>x a a'. f x a = Inr a' \<Longrightarrow> map fst a' = map fst a"
  shows "foldE f xs a = Inr b \<Longrightarrow> map fst b = map fst a"
proof (induction xs arbitrary: a)
  case Nil
  then show ?case by simp
next
  case (Cons x xs)
  from Cons.prems obtain a' where "f x a = Inr a'" "foldE f xs a' = Inr b"
    by (rule foldE_ConsE)
  with Cons.IH[of a'] assms[of x a a'] show ?case by simp
qed

lemma deal_card_keys: "deal_card ps ic hs = Inr hs' \<Longrightarrow> map fst hs' = map fst hs"
  by (auto simp: deal_card_def Let_def bindE_Inr dict_get_Inr update_keys_present split: if_splits)

lemma remove_card_keys: "remove_card pc hs = Inr hs' \<Longrightarrow> map fst hs' = map fst hs"
  by (auto simp: remove_card_def bindE_Inr dict_get_Inr update_keys_present split: if_splits)

lemma extend_pass_keys: "extend_pass m pp hs = Inr hs' \<Longrightarrow> map fst hs' = map fst hs"
  by (auto simp: extend_pass_def bindE_Inr dict_get_Inr update_keys_present)

lemma deal_hands_keys:
  assumes "deal_hands ps deck = Inr hs"
  shows "map fst hs = map fst (dict_from_players ps ([] :: card list))"
proof -
  from assms obtain hs0 where
    a: "foldE (deal_card ps) (enumerate 0 deck) (dict_from_players ps []) = Inr hs0"
    and b: "sort_hands hs0 = Inr hs"
    by (auto simp: deal_hands_def bindE_Inr)
  from a have "map fst hs0 = map fst (dict_from_players ps ([] :: card list))"
    by (rule foldE_keys[rotated]) (rule deal_card_keys)
  with sort_hands_cards[OF b] show ?thesis by simp
qed

lemma exchange_keys:
  assumes "remove_passes pending hs = Inr hs1"
    and "foldE (extend_pass mapping) pending hs1 = Inr hs2"
    and "sort_hands hs2 = Inr hs3"
  shows "map fst hs3 = map fst hs"
proof -
  from assms(1) have "map fst hs1 = map fst hs"
    unfolding remove_passes_def by (rule foldE_keys[rotated]) (rule remove_card_keys)
  moreover from assms(2) have "map fst hs2 = map fst hs1"
    by (rule foldE_keys[rotated]) (rule extend_pass_keys)
  ultimately show ?thesis using sort_hands_cards[OF assms(3)] by simp
qed

lemma shuffled_cards: "shuffled deck \<Longrightarrow> \<forall>c \<in> set deck. is_card c"
proof -
  assume "shuffled deck"
  then have "set deck = set make_deck" unfolding shuffled_def by (rule mset_eq_setD)
  then show ?thesis by (simp add: is_card_def)
qed

lemma passing_inv_start_round:
  assumes "start_round deck s = Inr s'" and "shuffled deck"
  shows "passing_inv s'"
proof -
  from assms(1) obtain hs where hs: "deal_hands (players s) deck = Inr hs"
    and s': "hands s' = hs" "pending_pass s' = []" "players s' = players s"
    by (auto simp: start_round_def Let_def bindE_def split: sum.splits if_splits)
  from deal_hands_cards[OF hs] have "set (all_cards hs) = set deck" by (rule mset_eq_setD)
  with shuffled_cards[OF assms(2)] have "\<forall>c \<in> set (all_cards hs). is_card c" by simp
  with deal_hands_keys[OF hs] s' show ?thesis by (simp add: passing_inv_def)
qed

lemma submit_pass_accepted:
  assumes "submit_pass pid cards s = Inr (True, s')"
  shows "phase s = ''passing'' \<and> length cards = 3 \<and>
    set cards \<subseteq> set (dict_get_default (hands s) pid [])"
proof (rule ccontr)
  assume "\<not> ?thesis"
  then have "phase s \<noteq> ''passing'' \<or> length cards \<noteq> 3 \<or>
    (\<exists>c \<in> set cards. c \<notin> set (dict_get_default (hands s) pid []))"
    by blast
  from submit_pass_rejected[OF this] assms show False by simp
qed

lemma held_seat:
  assumes "length cards = 3" and "set cards \<subseteq> set (dict_get_default hs pid [])"
  shows "pid \<in> set (map fst hs)"
proof (cases "map_of hs pid")
  case None
  with assms(2) have "set cards = {}" by (simp add: dict_get_default_def)
  with assms(1) show ?thesis by simp
next
  case (Some h)
  then show ?thesis by (metis domI dom_map_of_conv_image_fst list.set_map)
qed

lemma set_update_cases:
  "x \<in> set (AList.update k v al) \<Longrightarrow> x = (k, v) \<or> x \<in> set al"
  by (induction al) (auto split: if_splits)

lemma passing_inv_submit_pass:
  assumes "submit_pass pid cards s = Inr (b, s')" and "passing_inv s"
  shows "passing_inv s'"
proof -
  from submit_pass_cases[OF assms(1)] consider
    (rejected) "s' = s"
  | (stored) "b" "s' = s\<lparr>pending_pass := AList.update pid cards (pending_pass s)\<rparr>"
  | (fired) hs1 hs2 hs3 where
      "remove_passes (AList.update pid cards (pending_pass s)) (hands s) = Inr hs1"
      "foldE (extend_pass (pass_map (players s) (pass_dir s)))
         (AList.update pid cards (pending_pass s)) hs1 = Inr hs2"
      "sort_hands hs2 = Inr hs3"
      "s' = s\<lparr>hands := hs3, pending_pass := [], phase := ''playing'',
               current_turn := find_two_clubs_player hs3\<rparr>"
    by blast
  then show ?thesis
  proof cases
    case rejected
    with assms(2) show ?thesis by simp
  next
    case stored
    from assms(1) stored(1) have acc: "phase s = ''passing''" "length cards = 3"
      "set cards \<subseteq> set (dict_get_default (hands s) pid [])"
      using submit_pass_accepted[of pid cards s s'] by simp_all
    have seat: "pid \<in> set (map fst (hands s))" using acc(2,3) by (rule held_seat)
    from assms(2) have old: "\<forall>qc \<in> set (pending_pass s).
        fst qc \<in> set (map fst (hands s)) \<and> length (snd qc) = 3 \<and>
        set (snd qc) \<subseteq> set (dict_get_default (hands s) (fst qc) [])"
      unfolding passing_inv_def by blast
    have "\<forall>qc \<in> set (AList.update pid cards (pending_pass s)).
        fst qc \<in> set (map fst (hands s)) \<and> length (snd qc) = 3 \<and>
        set (snd qc) \<subseteq> set (dict_get_default (hands s) (fst qc) [])"
    proof
      fix qc assume "qc \<in> set (AList.update pid cards (pending_pass s))"
      then have "qc = (pid, cards) \<or> qc \<in> set (pending_pass s)"
        by (rule set_update_cases)
      then show "fst qc \<in> set (map fst (hands s)) \<and> length (snd qc) = 3 \<and>
        set (snd qc) \<subseteq> set (dict_get_default (hands s) (fst qc) [])"
      proof
        assume "qc = (pid, cards)"
        with acc seat show ?thesis by simp
      next
        assume "qc \<in> set (pending_pass s)"
        with old show ?thesis by blast
      qed
    qed
    moreover have "distinct (map fst (AList.update pid cards (pending_pass s)))"
      using assms(2) by (simp add: passing_inv_def distinct_update)
    ultimately show ?thesis using assms(2) acc(1)
      by (simp add: stored(2) passing_inv_def)
  next
    case fired
    from exchange_cards[OF fired(1-3)] have "set (all_cards hs3) = set (all_cards (hands s))"
      by (rule mset_eq_setD)
    with exchange_keys[OF fired(1-3)] assms(2) show ?thesis
      by (simp add: fired(4) passing_inv_def)
  qed
qed

lemma finish_round_hands:
  "finish_round s = Inr s' \<Longrightarrow> hands s' = hands s \<and> pending_pass s' = pending_pass s"
  by (auto simp: finish_round_def Let_def bindE_def split: sum.splits if_splits option.splits)

lemma take_trick_hands:
  "take_trick s3 = Inr (b, s') \<Longrightarrow> hands s' = hands s3 \<and> pending_pass s' = pending_pass s3"
  by (auto simp: take_trick_def Let_def bindE_def split: sum.splits if_splits
      dest!: finish_round_hands)

lemma play_accepted_hands:
  assumes "play_accepted pid c s = Inr (b, s')"
  shows "hands s' = AList.update pid (remove1 c (dict_get_default (hands s) pid [])) (hands s) \<and>
    pending_pass s' = pending_pass s"
  using assms
  by (auto simp: play_accepted_def Let_def bindE_def split: sum.splits if_splits
      dest!: take_trick_hands)

lemma play_card_hands:
  assumes "play_card pid c s = Inr (b, s')"
  shows "s' = s \<or>
    (phase s = ''playing'' \<and> c \<in> set (dict_get_default (hands s) pid []) \<and>
     hands s' = AList.update pid (remove1 c (dict_get_default (hands s) pid [])) (hands s) \<and>
     pending_pass s' = pending_pass s \<and> players s' = players s \<and> phase s' \<noteq> ''passing'')"
proof (cases "play_card pid c s = Inr (False, s)")
  case True
  with assms show ?thesis by simp
next
  case False
  with assms have acc: "play_accepted pid c s = Inr (b, s')" and playing: "phase s = ''playing''"
    and held: "c \<in> set (dict_get_default (hands s) pid [])"
    unfolding play_card_unfold by (auto simp: bindE_def split: if_splits sum.splits)
  from play_accepted_cases[OF acc] playing have "players s' = players s" "phase s' \<noteq> ''passing''"
    by auto
  with play_accepted_hands[OF acc] playing held show ?thesis by simp
qed

lemma all_cards_update_subset:
  assumes "map_of hs k = Some h" and "set h' \<subseteq> set h"
  shows "set (all_cards (AList.update k h' hs)) \<subseteq> set (all_cards hs)"
proof -
  from assms(1) have "(k, h) \<in> set hs" by (rule map_of_SomeD)
  then have h: "set h \<subseteq> set (all_cards hs)" by (force simp: all_cards_def)
  from all_cards_update[OF assms(1), of h']
  have "set_mset (mset (all_cards (AList.update k h' hs)) + mset h) =
      set_mset (mset (all_cards hs) + mset h')"
    by simp
  then have "set (all_cards (AList.update k h' hs)) \<union> set h = set (all_cards hs) \<union> set h'"
    by simp
  with assms(2) h show ?thesis by blast
qed

lemma passing_inv_play_card:
  assumes "play_card pid c s = Inr (b, s')" and "passing_inv s"
  shows "passing_inv s'"
proof -
  from play_card_hands[OF assms(1)] consider
    (rejected) "s' = s"
  | (played) "phase s = ''playing''" "c \<in> set (dict_get_default (hands s) pid [])"
      "hands s' = AList.update pid (remove1 c (dict_get_default (hands s) pid [])) (hands s)"
      "pending_pass s' = pending_pass s" "players s' = players s" "phase s' \<noteq> ''passing''"
    by blast
  then show ?thesis
  proof cases
    case rejected
    with assms(2) show ?thesis by simp
  next
    case played
    from played(2) obtain h where h: "map_of (hands s) pid = Some h"
      "dict_get_default (hands s) pid [] = h"
      by (cases "map_of (hands s) pid") (auto simp: dict_get_default_def)
    have keys: "map fst (hands s') = map fst (hands s)"
      unfolding played(3) using h(1) by (rule update_keys_present)
    have "set (remove1 c h) \<subseteq> set h" by (rule set_remove1_subset)
    with h(1) have "set (all_cards (hands s')) \<subseteq> set (all_cards (hands s))"
      unfolding played(3) h(2) by (rule all_cards_update_subset)
    moreover from assms(2) played(1) have "pending_pass s = []" by (simp add: passing_inv_def)
    ultimately show ?thesis using assms(2) keys played(4,5)
      by (auto simp: passing_inv_def)
  qed
qed

lemma passing_inv_apply_call:
  assumes "apply_call cl s = Inr s'" and "call_ok cl" and "passing_inv s"
  shows "passing_inv s'"
proof (cases cl)
  case (StartRound deck)
  from assms(1) StartRound have a: "start_round deck s = Inr s'" by simp
  from assms(2) StartRound have b: "shuffled deck" by simp
  show ?thesis using a b by (rule passing_inv_start_round)
next
  case (SubmitPass pid cards)
  from assms(1) obtain b where "submit_pass pid cards s = Inr (b, s')"
    unfolding SubmitPass apply_call.simps by (blast dest: bindE_snd)
  then show ?thesis using assms(3) by (rule passing_inv_submit_pass)
next
  case (PlayCard pid c)
  from assms(1) obtain b where "play_card pid c s = Inr (b, s')"
    unfolding PlayCard apply_call.simps by (blast dest: bindE_snd)
  then show ?thesis using assms(3) by (rule passing_inv_play_card)
next
  case (StartNextRound deck)
  from assms(1) obtain b where "start_next_round deck s = Inr (b, s')"
    unfolding StartNextRound apply_call.simps by (blast dest: bindE_snd)
  then consider "s' = s" | "start_round deck s = Inr s'"
    by (auto simp: start_next_round_def bindE_def split: sum.splits if_splits)
  then show ?thesis
  proof cases
    case 1
    with assms(3) show ?thesis by simp
  next
    case 2
    moreover from assms(2) StartNextRound have "shuffled deck" by simp
    ultimately show ?thesis by (rule passing_inv_start_round)
  qed
qed

lemma reachable_passing_inv: "reachable s \<Longrightarrow> passing_inv s"
proof (induction rule: reachable.induct)
  case (reach_start ps deck s)
  from reach_start(3,2) show ?case by (rule passing_inv_start_round)
next
  case (reach_call s c s')
  from reach_call(3,2,4) show ?case by (rule passing_inv_apply_call)
qed

lemma reachable_exchange_ready:
  assumes "reachable s" and "distinct (player_order s)"
    and "phase s = ''passing''" and "length cards = 3"
    and "set cards \<subseteq> set (dict_get_default (hands s) pid [])"
    and "\<forall>qc \<in> set (AList.update pid cards (pending_pass s)). distinct (snd qc)"
  shows "exchange_ready pid cards s"
proof -
  from reachable_passing_inv[OF assms(1)] have
    keys: "map fst (dict_from_players (players s) ([] :: card list)) = map fst (hands s)"
    and cards: "\<forall>c \<in> set (all_cards (hands s)). is_card c"
    and dist: "distinct (map fst (pending_pass s))"
    and old: "\<forall>qc \<in> set (pending_pass s).
        fst qc \<in> set (map fst (hands s)) \<and> length (snd qc) = 3 \<and>
        set (snd qc) \<subseteq> set (dict_get_default (hands s) (fst qc) [])"
    unfolding passing_inv_def by blast+
  from assms(2) have "map fst (dict_from_players (players s) ([] :: card list)) = player_order s"
    unfolding player_order_def by (rule dict_from_players_keys)
  with keys have hk: "map fst (hands s) = player_order s" by simp
  have seat: "pid \<in> set (map fst (hands s))" using assms(4,5) by (rule held_seat)
  have "\<forall>qc \<in> set (AList.update pid cards (pending_pass s)).
        fst qc \<in> set (player_order s) \<and> distinct (snd qc) \<and>
        set (snd qc) \<subseteq> set (dict_get_default (hands s) (fst qc) [])"
  proof
    fix qc assume qc: "qc \<in> set (AList.update pid cards (pending_pass s))"
    then have "qc = (pid, cards) \<or> qc \<in> set (pending_pass s)" by (rule set_update_cases)
    then have "fst qc \<in> set (map fst (hands s)) \<and>
        set (snd qc) \<subseteq> set (dict_get_default (hands s) (fst qc) [])"
    proof
      assume "qc = (pid, cards)"
      with assms(5) seat show ?thesis by simp
    next
      assume "qc \<in> set (pending_pass s)"
      with old show ?thesis by blast
    qed
    with assms(6) qc show "fst qc \<in> set (player_order s) \<and> distinct (snd qc) \<and>
        set (snd qc) \<subseteq> set (dict_get_default (hands s) (fst qc) [])"
      unfolding hk by blast
  qed
  with assms(2,3,4) hk cards dist show ?thesis
    unfolding exchange_ready_def by blast
qed

subsection \<open>The winner of the game\<close>

lemma finish_round_winner:
  assumes "finish_round s = Inr s'" and "phase s' = ''game_over''"
  shows "\<exists>pre w v post. scores s' = pre @ (w, v) # post \<and> winner_id s' = Some w \<and>
           (\<forall>x \<in> set pre. v < snd x) \<and> (\<forall>x \<in> set post. v \<le> snd x)"
proof -
  from assms obtain sc w where sc: "scores s' = sc" "winner_id s' = Some w" "min_key sc = Inr w"
    unfolding finish_round_unfold
    by (auto simp: bindE_def split: sum.splits if_splits)
  from sc(3) have "sc \<noteq> []" by (auto simp: min_key_def)
  from min_key_spec[OF this] sc show ?thesis by auto
qed

lemma winner_inv_finish_round:
  assumes "finish_round s = Inr s'" and "map fst (scores s) = player_order s"
  shows "winner_inv s'"
proof -
  from finish_round_keys[OF assms(1)] assms(2) have "map fst (scores s') = player_order s'"
    by (simp add: player_order_def)
  with finish_round_winner[OF assms(1)] show ?thesis by (simp add: winner_inv_def)
qed

lemma winner_inv_frame:
  "scores s' = scores s \<Longrightarrow> players s' = players s \<Longrightarrow> phase s' \<noteq> ''game_over'' \<Longrightarrow>
   map fst (scores s) = player_order s \<Longrightarrow> winner_inv s'"
  by (simp add: winner_inv_def player_order_def)

lemma winner_inv_take_trick:
  assumes "take_trick s3 = Inr (b, s')" and "map fst (scores s3) = player_order s3"
    and "phase s3 \<noteq> ''game_over''"
  shows "winner_inv s'"
proof -
  from assms(1) obtain winner pts old where
    s': "s' = s3\<lparr>taken_points_round :=
                      AList.update winner (old + sum_list pts) (taken_points_round s3),
                    last_trick := trick s3, trick := [],
                    current_turn := Some winner, trick_index := trick_index s3 + 1\<rparr> \<or>
       finish_round (s3\<lparr>taken_points_round :=
                      AList.update winner (old + sum_list pts) (taken_points_round s3),
                    last_trick := trick s3, trick := [],
                    current_turn := Some winner\<rparr>) = Inr s'"
    by (auto simp: take_trick_def Let_def bindE_def dict_get_def
        split: sum.splits if_splits option.splits)
  let ?s4 = "s3\<lparr>taken_points_round :=
                 AList.update winner (old + sum_list pts) (taken_points_round s3),
               last_trick := trick s3, trick := [], current_turn := Some winner\<rparr>"
  from s' show ?thesis
  proof
    assume "s' = ?s4\<lparr>trick_index := trick_index s3 + 1\<rparr>"
    with assms(2,3) show ?thesis by (simp add: winner_inv_def player_order_def)
  next
    assume "finish_round ?s4 = Inr s'"
    moreover from assms(2) have "map fst (scores ?s4) = player_order ?s4"
      by (simp add: player_order_def)
    ultimately show ?thesis by (rule winner_inv_finish_round)
  qed
qed

lemma play_accepted_phase:
  assumes "play_accepted pid c s = Inr (b, s')"
  obtains s3 where "scores s3 = scores s" and "players s3 = players s" and "phase s3 = phase s"
    and "(\<exists>np. s' = s3\<lparr>current_turn := Some np\<rparr>) \<or> take_trick s3 = Inr (b, s')"
proof -
  define s2 where "s2 = (if trick s = [] then s\<lparr>last_trick := []\<rparr> else s)
      \<lparr>hands := AList.update pid (remove1 c (dict_get_default (hands s) pid []))
                 (hands (if trick s = [] then s\<lparr>last_trick := []\<rparr> else s)),
       trick := trick (if trick s = [] then s\<lparr>last_trick := []\<rparr> else s) @ [(pid, c)]\<rparr>"
  from assms obtain suit where suit: "card_suit c = Inr suit"
    and run: "(let s3 = (if suit = ''H'' then s2\<lparr>hearts_broken := True\<rparr> else s2) in
        if length (trick s3) < length (players s3) then
          bindE (next_player pid s3) (\<lambda>np. Inr (True, s3\<lparr>current_turn := Some np\<rparr>))
        else take_trick s3) = Inr (b, s')"
    unfolding play_accepted_def Let_def s2_def by (auto simp: bindE_Inr)
  define s3 where "s3 = (if suit = ''H'' then s2\<lparr>hearts_broken := True\<rparr> else s2)"
  have frame: "scores s3 = scores s" "players s3 = players s" "phase s3 = phase s"
    by (simp_all add: s3_def s2_def)
  from run have "(\<exists>np. s' = s3\<lparr>current_turn := Some np\<rparr>) \<or> take_trick s3 = Inr (b, s')"
    unfolding Let_def s3_def[symmetric]
    by (auto simp: bindE_def split: if_splits sum.splits)
  with frame show ?thesis by (rule that)
qed

lemma winner_inv_play_card:
  assumes "play_card pid c s = Inr (b, s')" and "winner_inv s"
  shows "winner_inv s'"
proof (cases "play_card pid c s = Inr (False, s)")
  case True
  with assms show ?thesis by simp
next
  case False
  with assms(1) have acc: "play_accepted pid c s = Inr (b, s')" and playing: "phase s = ''playing''"
    unfolding play_card_unfold by (auto simp: bindE_def split: if_splits sum.splits)
  from assms(2) have keys: "map fst (scores s) = player_order s" by (simp add: winner_inv_def)
  from acc obtain s3 where
    s3: "scores s3 = scores s" "players s3 = players s" "phase s3 = phase s"
    and s': "(\<exists>np. s' = s3\<lparr>current_turn := Some np\<rparr>) \<or> take_trick s3 = Inr (b, s')"
    by (rule play_accepted_phase)
  from s3 keys have keys3: "map fst (scores s3) = player_order s3"
    by (simp add: player_order_def)
  from s3 playing have ph3: "phase s3 \<noteq> ''game_over''" by simp
  from s' show ?thesis
  proof
    assume "\<exists>np. s' = s3\<lparr>current_turn := Some np\<rparr>"
    then have "scores s' = scores s3" "players s' = players s3" "phase s' \<noteq> ''game_over''"
      using ph3 by auto
    then show ?thesis using keys3 by (rule winner_inv_frame)
  next
    assume "take_trick s3 = Inr (b, s')"
    then show ?thesis using keys3 ph3 by (rule winner_inv_take_trick)
  qed
qed

lemma winner_inv_submit_pass:
  assumes "submit_pass pid cards s = Inr (b, s')" and "winner_inv s"
  shows "winner_inv s'"
proof -
  from assms(2) have keys: "map fst (scores s) = player_order s" by (simp add: winner_inv_def)
  from submit_pass_cases[OF assms(1)] consider "s' = s"
    | "scores s' = scores s" "players s' = players s" "phase s' \<noteq> ''game_over''"
    by auto
  then show ?thesis
  proof cases
    case 1
    with assms(2) show ?thesis by simp
  next
    case 2
    then show ?thesis using keys by (rule winner_inv_frame)
  qed
qed

lemma winner_inv_start_round:
  assumes "start_round deck s = Inr s'" and "map fst (scores s) = player_order s"
  shows "winner_inv s'"
proof -
  from assms(1) have "scores s' = scores s" "players s' = players s" "phase s' \<noteq> ''game_over''"
    by (auto simp: start_round_def Let_def bindE_def split: sum.splits if_splits)
  then show ?thesis using assms(2) by (rule winner_inv_frame)
qed

lemma winner_inv_apply_call:
  assumes "apply_call cl s = Inr s'" and "winner_inv s"
  shows "winner_inv s'"
proof (cases cl)
  case (StartRound deck)
  from assms(2) have k: "map fst (scores s) = player_order s" by (simp add: winner_inv_def)
  from assms(1) StartRound have "start_round deck s = Inr s'" by simp
  then show ?thesis using k by (rule winner_inv_start_round)
next
  case (SubmitPass pid cards)
  from assms(1) obtain b where "submit_pass pid cards s = Inr (b, s')"
    unfolding SubmitPass apply_call.simps by (blast dest: bindE_snd)
  then show ?thesis using assms(2) by (rule winner_inv_submit_pass)
next
  case (PlayCard pid c)
  from assms(1) obtain b where "play_card pid c s = Inr (b, s')"
    unfolding PlayCard apply_call.simps by (blast dest: bindE_snd)
  then show ?thesis using assms(2) by (rule winner_inv_play_card)
next
  case (StartNextRound deck)
  from assms(2) have k: "map fst (scores s) = player_order s" by (simp add: winner_inv_def)
  from assms(1) obtain b where "start_next_round deck s = Inr (b, s')"
    unfolding StartNextRound apply_call.simps by (blast dest: bindE_snd)
  then consider "s' = s" | "start_round deck s = Inr s'"
    by (auto simp: start_next_round_def bindE_def split: sum.splits if_splits)
  then show ?thesis
  proof cases
    case 1
    with assms(2) show ?thesis by simp
  next
    case 2
    then show ?thesis using k by (rule winner_inv_start_round)
  qed
qed

lemma reachable_winner_inv: "reachable s \<Longrightarrow> distinct (player_order s) \<Longrightarrow> winner_inv s"
proof (induction rule: reachable.induct)
  case (reach_start ps deck s)
  from reach_start(3) have "players s = ps"
    by (auto simp: start_round_def Let_def bindE_def init_game_def split: sum.splits if_splits)
  with reach_start(4) have "distinct (map id_p ps)" by (simp add: player_order_def)
  then have "map fst (scores (init_game ps)) = player_order (init_game ps)"
    by (simp add: init_game_def dict_from_players_keys player_order_def)
  with reach_start(3) show ?case by (rule winner_inv_start_round)
next
  case (reach_call s c s')
  from apply_call_players[OF reach_call(3)] reach_call(5) have "distinct (player_order s)"
    by (simp add: player_order_def)
  with reach_call(4) have "winner_inv s" by simp
  with reach_call(3) show ?case by (rule winner_inv_apply_call)
qed

lemma first_lowest_unique:
  assumes "first_lowest s i" and "first_lowest s k"
  shows "i = k"
proof (rule ccontr)
  assume "i \<noteq> k"
  then consider "i < k" | "k < i" by linarith
  then show False
  proof cases
    case 1
    with assms show False unfolding first_lowest_def by (metis leD)
  next
    case 2
    with assms show False unfolding first_lowest_def by (metis leD)
  qed
qed

lemma seat_score_nth:
  assumes "map fst (scores s) = player_order s" and "distinct (player_order s)"
    and "j < length (player_order s)"
  shows "seat_score s j = snd (scores s ! j)"
proof -
  from assms(1,3) have j: "j < length (scores s)" by (metis length_map)
  with assms(1) have key: "player_order s ! j = fst (scores s ! j)" by (metis nth_map)
  from j have "scores s ! j \<in> set (scores s)" by simp
  then have "(fst (scores s ! j), snd (scores s ! j)) \<in> set (scores s)" by simp
  moreover from assms(1,2) have "distinct (map fst (scores s))" by simp
  ultimately have "map_of (scores s) (fst (scores s ! j)) = Some (snd (scores s ! j))"
    by (rule map_of_is_SomeI[rotated])
  then show ?thesis by (simp add: seat_score_def dict_get_default_def key)
qed

text \<open>
  C10.  In every state of a game whose seats have distinct identifiers, when the phase is
  \<open>game_over\<close> the winner is the first lowest seat in the order of the players list: no
  seat has a lower score, and every seat that comes before it in the players list has a
  strictly higher score.  So among the seats tied at the lowest score the one that comes
  first in the players list wins.  (\<open>HeartsGame.__init__\<close> builds \<open>scores\<close> in the order
  of the players list and \<open>finish_round\<close> keeps that order.)
\<close>

theorem winner_tie_break:
  assumes "reachable s" and "distinct (player_order s)" and "phase s = ''game_over''"
  shows "(\<exists>i. first_lowest s i) \<and>
    (\<forall>i. first_lowest s i \<longrightarrow> winner_id s = Some (player_order s ! i))"
proof -
  from reachable_winner_inv[OF assms(1,2)] assms(3) obtain pre w v post where
    keys: "map fst (scores s) = player_order s" and
    d: "scores s = pre @ (w, v) # post" "winner_id s = Some w"
       "\<forall>x \<in> set pre. v < snd x" "\<forall>x \<in> set post. v \<le> snd x"
    by (auto simp: winner_inv_def)
  let ?i = "length pre"
  have len: "length (player_order s) = length (scores s)" using keys by (metis length_map)
  have i: "?i < length (player_order s)" by (simp add: len d(1))
  have sc: "seat_score s j = snd (scores s ! j)" if "j < length (player_order s)" for j
    using keys assms(2) that by (rule seat_score_nth)
  have wi: "player_order s ! ?i = w"
    using keys[symmetric] by (simp add: d(1) nth_append)
  have vi: "seat_score s ?i = v" using sc[OF i] by (simp add: d(1))
  have cmp: "seat_score s ?i \<le> seat_score s j \<and> (j < ?i \<longrightarrow> seat_score s ?i < seat_score s j)"
    if j: "j < length (player_order s)" for j
  proof -
    consider "j < ?i" | "j = ?i" | "?i < j" by linarith
    then show ?thesis
    proof cases
      case 1
      then have "scores s ! j \<in> set pre" by (simp add: d(1) nth_append)
      with d(3) have "v < snd (scores s ! j)" by simp
      then show ?thesis using sc[OF j] vi by simp
    next
      case 2
      then show ?thesis by simp
    next
      case 3
      then have "scores s ! j = post ! (j - ?i - 1)" by (simp add: d(1) nth_append)
      moreover have "j - ?i - 1 < length post" using 3 j by (simp add: len d(1))
      ultimately have "scores s ! j \<in> set post" by simp
      with d(4) have "v \<le> snd (scores s ! j)" by simp
      then show ?thesis using sc[OF j] vi 3 by simp
    qed
  qed
  have first: "first_lowest s ?i"
    unfolding first_lowest_def using i cmp by blast
  have "winner_id s = Some (player_order s ! k)" if "first_lowest s k" for k
    using first_lowest_unique[OF that first] d(2) wi by simp
  with first show ?thesis by blast
qed

theorem winner_tie_break_witness:
  "reachable game_end \<and> distinct (player_order game_end) \<and> phase game_end = ''game_over'' \<and>
   player_order game_end = [''n'', ''e'', ''s'', ''w''] \<and>
   scores game_end = [(''n'', 104), (''e'', 52), (''s'', 52), (''w'', 104)] \<and>
   first_lowest game_end 1 \<and> winner_id game_end = Some ''e''"
proof -
  have d: "distinct (player_order game_end)" by code_simp
  have p: "phase game_end = ''game_over''" by (simp add: game_end_def)
  have o: "player_order game_end = [''n'', ''e'', ''s'', ''w'']" by code_simp
  have sc: "scores game_end = [(''n'', 104), (''e'', 52), (''s'', 52), (''w'', 104)]"
    by (simp add: game_end_def)
  have f: "first_lowest game_end 1"
    by (simp add: first_lowest_def seat_score_def dict_get_default_def o sc less_Suc_eq
        numeral_eq_Suc all_conj_distrib)
  show ?thesis
    using winner_tie_break[OF reachable_game_end d p] reachable_game_end d p o sc f by simp
qed

end
